theory Spec2Isabelle
  imports Main "HOL-Library.Word"
begin

unbundle bit_operations_syntax

section \<open>Data model of keyboard.go\<close>

text \<open>
  Go's \<open>byte\<close> is an 8-bit word and \<open>rune\<close> is \<open>int32\<close>. A Go \<open>string\<close> is a
  sequence of bytes, and \<open>string(buf)\<close> keeps the bytes of \<open>buf\<close> as they are, so both
  the input buffer and the entries of \<open>keys\<close> are byte lists. Lengths and consumed
  counts are Go \<open>int\<close>s that are never negative here; they are natural numbers.
\<close>

type_synonym byte = "8 word"
type_synonym rune = "32 word"
type_synonym gostring = "byte list"

text \<open>
  The type \<open>Key\<close> is declared in a file of the package that is not part of the sources
  at hand. It is taken to be \<open>uint16\<close>, the width the conversion \<open>Key(0xFFFF - i)\<close> is
  written for.
\<close>

type_synonym Key = "16 word"

text \<open>
  Go's \<open>error\<close> values that the code handles: the \<open>syscall.Errno\<close> of a failed system
  call, the \<open>*os.PathError\<close> of \<open>os.OpenFile\<close>, the \<open>*os.SyscallError\<close> built by
  \<open>os.NewSyscallError\<close>, the error of \<open>setup_term\<close>, and the wrapping by
  \<open>fmt.Errorf\<close>.
\<close>

datatype error =
    Errno nat
  | PathError string string error
  | SyscallError string error
  | TermError string
  | Errorf string error

text \<open>
  \<open>keyEvent\<close> is declared outside the sources at hand as well; the code uses its
  fields \<open>key\<close>, \<open>rune\<close> and \<open>err\<close>. The composite literal \<open>keyEvent{}\<close> is the zero
  value of every field.
\<close>

record keyEvent =
  key :: Key
  rune :: rune
  err :: "error option"

definition keyEvent_zero :: keyEvent where
  "keyEvent_zero = \<lparr>key = 0, rune = 0, err = None\<rparr>"

text \<open>
  The key constants \<open>KeyEsc\<close>, \<open>KeySpace\<close> and \<open>KeyBackspace2\<close> are declared outside
  the sources at hand; the decoder takes them as parameters.
\<close>

record keydefs =
  KeyEsc :: Key
  KeySpace :: Key
  KeyBackspace2 :: Key

section \<open>\<open>unicode/utf8.DecodeRune\<close> of the Go standard library\<close>

definition RuneError :: rune where "RuneError = 0xFFFD"

definition locb :: byte where "locb = 0x80"
definition hicb :: byte where "hicb = 0xBF"

definition maskx :: byte where "maskx = 0x3F"
definition mask2 :: byte where "mask2 = 0x1F"
definition mask3 :: byte where "mask3 = 0x0F"
definition mask4 :: byte where "mask4 = 0x07"

definition xx :: byte where "xx = 0xF1"
definition as :: byte where "as = 0xF0"
definition s1 :: byte where "s1 = 0x02"
definition s2 :: byte where "s2 = 0x13"
definition s3 :: byte where "s3 = 0x03"
definition s4 :: byte where "s4 = 0x23"
definition s5 :: byte where "s5 = 0x34"
definition s6 :: byte where "s6 = 0x04"
definition s7 :: byte where "s7 = 0x44"

text \<open>The table \<open>first[256]\<close>, row by row.\<close>

definition first :: "byte \<Rightarrow> byte" where
  "first b =
     (if b \<le> 0x7F then as
      else if b \<le> 0xC1 then xx
      else if b \<le> 0xDF then s1
      else if b = 0xE0 then s2
      else if b \<le> 0xEC then s3
      else if b = 0xED then s4
      else if b \<le> 0xEF then s3
      else if b = 0xF0 then s5
      else if b \<le> 0xF3 then s6
      else if b = 0xF4 then s7
      else xx)"

record acceptRange =
  lo :: byte
  hi :: byte

text \<open>The array \<open>acceptRanges[16]\<close>: five entries are given, the others are zero.\<close>

definition acceptRanges :: "byte \<Rightarrow> acceptRange" where
  "acceptRanges i =
     (if i = 0 then \<lparr>lo = locb, hi = hicb\<rparr>
      else if i = 1 then \<lparr>lo = 0xA0, hi = hicb\<rparr>
      else if i = 2 then \<lparr>lo = locb, hi = 0x9F\<rparr>
      else if i = 3 then \<lparr>lo = 0x90, hi = hicb\<rparr>
      else if i = 4 then \<lparr>lo = locb, hi = 0x8F\<rparr>
      else \<lparr>lo = 0, hi = 0\<rparr>)"

text \<open>\<open>rune(b)\<close> for a byte \<open>b\<close>.\<close>

definition rune_of :: "byte \<Rightarrow> rune" where
  "rune_of b = ucast b"

definition DecodeRune :: "byte list \<Rightarrow> rune \<times> nat" where
  "DecodeRune p =
     (let n = length p in
      if n < 1 then (RuneError, 0)
      else
        let p0 = p ! 0; x = first p0 in
        if x \<ge> as then
          (let mask = signed_drop_bit 31 (push_bit 31 (rune_of x))
           in ((rune_of (p ! 0) AND NOT mask) OR (RuneError AND mask), 1))
        else
          let sz = unat (x AND 7); accept = acceptRanges (drop_bit 4 x) in
          if n < sz then (RuneError, 1)
          else
            let b1 = p ! 1 in
            if b1 < lo accept \<or> hi accept < b1 then (RuneError, 1)
            else if sz \<le> 2 then
              (push_bit 6 (rune_of (p0 AND mask2)) OR rune_of (b1 AND maskx), 2)
            else
              let b2 = p ! 2 in
              if b2 < locb \<or> hicb < b2 then (RuneError, 1)
              else if sz \<le> 3 then
                (push_bit 12 (rune_of (p0 AND mask3)) OR push_bit 6 (rune_of (b1 AND maskx))
                   OR rune_of (b2 AND maskx), 3)
              else
                let b3 = p ! 3 in
                if b3 < locb \<or> hicb < b3 then (RuneError, 1)
                else
                  (push_bit 18 (rune_of (p0 AND mask4)) OR push_bit 12 (rune_of (b1 AND maskx))
                     OR push_bit 6 (rune_of (b2 AND maskx)) OR rune_of (b3 AND maskx), 4))"

section \<open>The event decoder\<close>

text \<open>\<open>strings.HasPrefix(s, prefix)\<close>: \<open>len(s) >= len(prefix) && s[:len(prefix)] == prefix\<close>.\<close>

definition HasPrefix :: "gostring \<Rightarrow> gostring \<Rightarrow> bool" where
  "HasPrefix s pre = (length s \<ge> length pre \<and> take (length pre) s = pre)"

text \<open>\<open>Key(0xFFFF - i)\<close> for the index \<open>i\<close> of the range loop.\<close>

definition Key_of_index :: "nat \<Rightarrow> Key" where
  "Key_of_index i = word_of_int (0xFFFF - int i)"

text \<open>
  The loop \<open>for i, key := range keys\<close> of \<open>parse_escape_sequence\<close>, from index \<open>i\<close>
  on; \<open>ks\<close> is what is left of \<open>keys\<close>. The named result \<open>event\<close> starts as the zero
  value.
\<close>

fun parse_escape_loop :: "nat \<Rightarrow> gostring list \<Rightarrow> gostring \<Rightarrow> nat \<times> keyEvent" where
  "parse_escape_loop i [] bufstr = (0, keyEvent_zero)"
| "parse_escape_loop i (k # ks) bufstr =
     (if HasPrefix bufstr k
      then (length k, keyEvent_zero\<lparr>rune := 0, key := Key_of_index i\<rparr>)
      else parse_escape_loop (Suc i) ks bufstr)"

definition parse_escape_sequence :: "gostring list \<Rightarrow> byte list \<Rightarrow> nat \<times> keyEvent" where
  "parse_escape_sequence keys buf = parse_escape_loop 0 keys buf"

text \<open>\<open>Key(inbuf[0])\<close>.\<close>

definition Key_of_byte :: "byte \<Rightarrow> Key" where
  "Key_of_byte b = ucast b"

definition extract_event :: "keydefs \<Rightarrow> gostring list \<Rightarrow> byte list \<Rightarrow> nat \<times> keyEvent" where
  "extract_event K keys inbuf =
     (if length inbuf = 0 then (0, keyEvent_zero)
      else if inbuf ! 0 = 0x1B then
        (case parse_escape_sequence keys inbuf of
           (sz, event) \<Rightarrow>
             if sz \<noteq> 0 then (sz, event)
             else (length inbuf, keyEvent_zero\<lparr>key := KeyEsc K\<rparr>))
      else if Key_of_byte (inbuf ! 0) \<le> KeySpace K \<or> Key_of_byte (inbuf ! 0) = KeyBackspace2 K
        then (1, keyEvent_zero\<lparr>key := Key_of_byte (inbuf ! 0)\<rparr>)
      else
        (case DecodeRune inbuf of
           (r, n) \<Rightarrow>
             if r \<noteq> RuneError then (n, keyEvent_zero\<lparr>rune := r\<rparr>)
             else (0, keyEvent_zero)))"

section \<open>The event producer\<close>

text \<open>
  What the reader task sends over \<open>input_buf\<close>: the struct \<open>input_event\<close>. Its field
  \<open>err\<close> is named \<open>ioerr\<close> here, since \<open>keyEvent\<close> has a field \<open>err\<close> already.
\<close>

record input_event =
  data :: "byte list"
  ioerr :: "error option"

text \<open>
  \<open>copy(inbuf, inbuf[size:]); inbuf = inbuf[:len(inbuf)-size]\<close>: the slice expression
  panics when \<open>size\<close> is beyond the length (the result \<open>None\<close>); otherwise the first
  \<open>size\<close> bytes are gone.
\<close>

definition consume :: "nat \<Rightarrow> byte list \<Rightarrow> byte list option" where
  "consume sz inbuf = (if sz > length inbuf then None else Some (drop sz inbuf))"

text \<open>
  The block that \<open>inputEventsProducer\<close> runs once before its loop and once for each data
  chunk: one call of \<open>extract_event\<close>, and, when the size is not zero, the removal of
  the consumed bytes and the event handed to \<open>produceEvent\<close>. The result is the new
  \<open>inbuf\<close> and the event to produce, if any; \<open>None\<close> is a panic.
\<close>

definition extract_and_produce ::
  "keydefs \<Rightarrow> gostring list \<Rightarrow> byte list \<Rightarrow> (byte list \<times> keyEvent option) option" where
  "extract_and_produce K keys inbuf =
     (case extract_event K keys inbuf of
        (sz, event) \<Rightarrow>
          if sz \<noteq> 0 then
            (case consume sz inbuf of
               None \<Rightarrow> None
             | Some inbuf' \<Rightarrow> Some (inbuf', Some event))
          else Some (inbuf, None))"

text \<open>
  The branch \<open>case ev := <-input_buf\<close> of the loop: the new \<open>inbuf\<close>, the event to
  produce, and whether the loop goes on (\<open>False\<close>: the function returns).
\<close>

definition on_input_event ::
  "keydefs \<Rightarrow> gostring list \<Rightarrow> byte list \<Rightarrow> input_event
     \<Rightarrow> (byte list \<times> keyEvent option \<times> bool) option" where
  "on_input_event K keys inbuf ev =
     (case ioerr ev of
        Some e \<Rightarrow> Some (inbuf, Some (keyEvent_zero\<lparr>err := Some e\<rparr>), False)
      | None \<Rightarrow>
          (case extract_and_produce K keys (inbuf @ data ev) of
             None \<Rightarrow> None
           | Some (inbuf', out) \<Rightarrow> Some (inbuf', out, True)))"

text \<open>
  The loop of \<open>inputEventsProducer\<close> run in isolation: the chunks arrive in the order of
  the list, nothing fires \<open>quit\<close>, and the consumer takes every event, so that
  \<open>produceEvent\<close> always sends. The result is the \<open>inbuf\<close> left and the events
  sent, in order, when the loop blocks for the next chunk or returns.
\<close>

fun producer_loop ::
  "keydefs \<Rightarrow> gostring list \<Rightarrow> byte list \<Rightarrow> input_event list
     \<Rightarrow> (byte list \<times> keyEvent list) option" where
  "producer_loop K keys inbuf [] = Some (inbuf, [])"
| "producer_loop K keys inbuf (ev # evs) =
     (case on_input_event K keys inbuf ev of
        None \<Rightarrow> None
      | Some (inbuf', out, continue) \<Rightarrow>
          if continue then
            (case producer_loop K keys inbuf' evs of
               None \<Rightarrow> None
             | Some (inbuf'', outs) \<Rightarrow> Some (inbuf'', (case out of None \<Rightarrow> [] | Some e \<Rightarrow> [e]) @ outs))
          else Some (inbuf', (case out of None \<Rightarrow> [] | Some e \<Rightarrow> [e])))"

definition inputEventsProducer ::
  "keydefs \<Rightarrow> gostring list \<Rightarrow> byte list \<Rightarrow> input_event list
     \<Rightarrow> (byte list \<times> keyEvent list) option" where
  "inputEventsProducer K keys inbuf evs =
     (case extract_and_produce K keys inbuf of
        None \<Rightarrow> None
      | Some (inbuf', out) \<Rightarrow>
          (case producer_loop K keys inbuf' evs of
             None \<Rightarrow> None
           | Some (inbuf'', outs) \<Rightarrow> Some (inbuf'', (case out of None \<Rightarrow> [] | Some e \<Rightarrow> [e]) @ outs)))"

section \<open>The two tasks and the teardown as a transition system\<close>

text \<open>
  The goroutine started at the end of \<open>initConsole\<close> (the reader), the goroutine
  \<open>inputEventsProducer\<close> (the producer) and the caller of \<open>releaseConsole\<close> run
  concurrently and meet on channels. Each is at one of a few program points; an action
  moves one of them, or two of them at once when it is a send meeting a receive on an
  unbuffered channel (\<open>quit\<close> and \<open>input_buf\<close> are made without capacity).
\<close>

text \<open>
  The program points of the reader: the outer \<open>select\<close> on \<open>sigio\<close> and \<open>quit\<close>;
  the call \<open>syscall.Read(in, buf)\<close>; the inner \<open>select\<close> that sends the
  \<open>input_event\<close> or receives \<open>quit\<close>; returned.
\<close>

datatype reader_pc = R_Select | R_Read | R_Send input_event | R_Stopped

text \<open>
  The program points of the producer: the first \<open>extract_event\<close>, before the loop; the
  \<open>select\<close> of the loop on \<open>input_buf\<close> and \<open>quit\<close>; the \<open>select\<close> of
  \<open>produceEvent\<close> with the event to send, and whether the loop goes on after it
  (\<open>False\<close> after the event of a read error, where the function returns); returned;
  stopped by a panic.
\<close>

datatype producer_pc =
  P_Start | P_Select | P_Produce keyEvent bool | P_Stopped | P_Panicked

text \<open>
  The program points of the caller: the console is open and \<open>releaseConsole\<close> is not
  called yet; then the statements of \<open>releaseConsole\<close> in order, \<open>quit <- 1\<close>, the
  \<open>ioctl\<close> that restores the attributes, \<open>out.Close()\<close>, \<open>unix.Close(in)\<close>;
  returned.
\<close>

datatype main_pc = M_Open | M_Quit | M_Restore | M_CloseOut | M_CloseIn | M_Done

text \<open>
  The state: the three program points, whether the channel \<open>sigio\<close> (capacity 1) holds
  a signal, the global \<open>inbuf\<close>, the events the consumer has received from
  \<open>input_comm\<close>, and the number of calls of \<open>syscall.Read\<close> so far.
\<close>

record system =
  reader :: reader_pc
  producer :: producer_pc
  main :: main_pc
  sigio :: bool
  inbuf :: "byte list"
  delivered :: "keyEvent list"
  nreads :: nat

text \<open>What \<open>syscall.Read\<close> returns: the bytes read, or an error.\<close>

datatype read_result = Read_ok "byte list" | Read_fail error

text \<open>\<open>unix.EAGAIN\<close> and \<open>unix.EWOULDBLOCK\<close>, both 11 on Linux.\<close>

definition EAGAIN :: error where "EAGAIN = Errno 11"
definition EWOULDBLOCK :: error where "EWOULDBLOCK = Errno 11"

text \<open>
  The actions. Those of the environment: a SIGIO reaches \<open>sigio\<close>; \<open>syscall.Read\<close>
  returns; the consumer receives from \<open>input_comm\<close>; the application calls
  \<open>releaseConsole\<close>. The others are steps of the code.
\<close>

datatype action =
    Signal_SIGIO
  | Reader_recv_sigio
  | Reader_recv_quit
  | Read_returns read_result
  | Send_chunk
  | Producer_start
  | Producer_recv_quit
  | Consumer_recv
  | Produce_recv_quit
  | Call_releaseConsole
  | Main_next

text \<open>Where the producer goes after \<open>produceEvent\<close> returns.\<close>

definition after_produce :: "bool \<Rightarrow> producer_pc" where
  "after_produce continue = (if continue then P_Select else P_Stopped)"

text \<open>Where the reader goes when \<open>syscall.Read\<close> has returned.\<close>

definition after_read :: "read_result \<Rightarrow> reader_pc option" where
  "after_read r =
     (case r of
        Read_fail e \<Rightarrow>
          if e = EAGAIN \<or> e = EWOULDBLOCK then Some R_Select
          else Some (R_Send \<lparr>data = [], ioerr = Some e\<rparr>)
      | Read_ok bs \<Rightarrow>
          if length bs \<le> 128 then Some (R_Send \<lparr>data = bs, ioerr = None\<rparr>) else None)"

text \<open>
  One action in a state; \<open>None\<close> when the action cannot happen there.
  \<^item> \<open>Signal_SIGIO\<close>: \<open>signal.Notify\<close> never blocks; a signal that finds the channel
    full is dropped.
  \<^item> \<open>Reader_recv_sigio\<close>, \<open>Reader_recv_quit\<close>: the cases of the reader's two
    \<open>select\<close> statements; a receive from \<open>quit\<close> needs the caller at \<open>quit <- 1\<close>
    and lets it go on.
  \<^item> \<open>Read_returns\<close>: would-block leaves the inner loop (\<open>break\<close>); any other result
    is packaged, with no data when it is an error.
  \<^item> \<open>Send_chunk\<close>: the send on \<open>input_buf\<close> meets the producer's receive; the reader
    goes back to \<open>syscall.Read\<close> (\<open>continue\<close>) and the producer runs the branch
    \<open>case ev := <-input_buf\<close>.
  \<^item> \<open>Consumer_recv\<close>, \<open>Produce_recv_quit\<close>: the two cases of \<open>produceEvent\<close>;
    both return to the caller of \<open>produceEvent\<close>.
\<close>

definition step :: "keydefs \<Rightarrow> gostring list \<Rightarrow> action \<Rightarrow> system \<Rightarrow> system option" where
  "step K keys a s =
     (case a of
        Signal_SIGIO \<Rightarrow> Some (s\<lparr>sigio := True\<rparr>)
      | Reader_recv_sigio \<Rightarrow>
          if reader s = R_Select \<and> sigio s
          then Some (s\<lparr>reader := R_Read, sigio := False\<rparr>) else None
      | Reader_recv_quit \<Rightarrow>
          (case reader s of
             R_Select \<Rightarrow>
               if main s = M_Quit then Some (s\<lparr>reader := R_Stopped, main := M_Restore\<rparr>)
               else None
           | R_Send ev \<Rightarrow>
               if main s = M_Quit then Some (s\<lparr>reader := R_Stopped, main := M_Restore\<rparr>)
               else None
           | _ \<Rightarrow> None)
      | Read_returns r \<Rightarrow>
          if reader s = R_Read then
            (case after_read r of
               None \<Rightarrow> None
             | Some pc \<Rightarrow> Some (s\<lparr>reader := pc, nreads := Suc (nreads s)\<rparr>))
          else None
      | Send_chunk \<Rightarrow>
          (case reader s of
             R_Send ev \<Rightarrow>
               if producer s = P_Select then
                 (case on_input_event K keys (inbuf s) ev of
                    None \<Rightarrow> Some (s\<lparr>reader := R_Read, producer := P_Panicked\<rparr>)
                  | Some (inbuf', out, continue) \<Rightarrow>
                      Some (s\<lparr>reader := R_Read, inbuf := inbuf',
                              producer := (case out of
                                             None \<Rightarrow> after_produce continue
                                           | Some e \<Rightarrow> P_Produce e continue)\<rparr>))
               else None
           | _ \<Rightarrow> None)
      | Producer_start \<Rightarrow>
          if producer s = P_Start then
            (case extract_and_produce K keys (inbuf s) of
               None \<Rightarrow> Some (s\<lparr>producer := P_Panicked\<rparr>)
             | Some (inbuf', out) \<Rightarrow>
                 Some (s\<lparr>inbuf := inbuf',
                         producer := (case out of
                                        None \<Rightarrow> P_Select
                                      | Some e \<Rightarrow> P_Produce e True)\<rparr>))
          else None
      | Producer_recv_quit \<Rightarrow>
          if producer s = P_Select \<and> main s = M_Quit
          then Some (s\<lparr>producer := P_Stopped, main := M_Restore\<rparr>) else None
      | Consumer_recv \<Rightarrow>
          (case producer s of
             P_Produce e continue \<Rightarrow>
               Some (s\<lparr>producer := after_produce continue, delivered := delivered s @ [e]\<rparr>)
           | _ \<Rightarrow> None)
      | Produce_recv_quit \<Rightarrow>
          (case producer s of
             P_Produce e continue \<Rightarrow>
               if main s = M_Quit
               then Some (s\<lparr>producer := after_produce continue, main := M_Restore\<rparr>)
               else None
           | _ \<Rightarrow> None)
      | Call_releaseConsole \<Rightarrow>
          if main s = M_Open then Some (s\<lparr>main := M_Quit\<rparr>) else None
      | Main_next \<Rightarrow>
          (case main s of
             M_Restore \<Rightarrow> Some (s\<lparr>main := M_CloseOut\<rparr>)
           | M_CloseOut \<Rightarrow> Some (s\<lparr>main := M_CloseIn\<rparr>)
           | M_CloseIn \<Rightarrow> Some (s\<lparr>main := M_Done\<rparr>)
           | _ \<Rightarrow> None))"

text \<open>A sequence of actions, one after the other; \<open>None\<close> when one of them cannot happen.\<close>

fun run :: "keydefs \<Rightarrow> gostring list \<Rightarrow> action list \<Rightarrow> system \<Rightarrow> system option" where
  "run K keys [] s = Some s"
| "run K keys (a # acts) s =
     (case step K keys a s of None \<Rightarrow> None | Some s' \<Rightarrow> run K keys acts s')"

text \<open>
  The state when \<open>initConsole\<close> has returned \<open>nil\<close>: both goroutines are started, no
  signal is pending, \<open>inbuf\<close> is empty.
\<close>

definition console_open :: system where
  "console_open =
     \<lparr>reader = R_Select, producer = P_Start, main = M_Open, sigio = False,
      inbuf = [], delivered = [], nreads = 0\<rparr>"

text \<open>
  The producer is not on its way out: it is before or in its loop, or in a
  \<open>produceEvent\<close> after which the loop goes on.
\<close>

definition producer_looping :: "producer_pc \<Rightarrow> bool" where
  "producer_looping p =
     (case p of
        P_Start \<Rightarrow> True
      | P_Select \<Rightarrow> True
      | P_Produce e continue \<Rightarrow> continue
      | _ \<Rightarrow> False)"


text \<open>The caller is past \<open>quit <- 1\<close>: the one value has been sent and received.\<close>

definition fired :: "main_pc \<Rightarrow> bool" where
  "fired m = (m \<noteq> M_Open \<and> m \<noteq> M_Quit)"

section \<open>Setting the console up\<close>

text \<open>
  \<open>unix.Termios\<close> (Linux): four flag words, the line discipline, the control characters
  (an array of 19 bytes) and the two speeds.
\<close>

record termios =
  Iflag :: "32 word"
  Oflag :: "32 word"
  Cflag :: "32 word"
  Lflag :: "32 word"
  Line :: byte
  Cc :: "byte list"
  Ispeed :: "32 word"
  Ospeed :: "32 word"

text \<open>The constants of \<open>golang.org/x/sys/unix\<close> that \<open>initConsole\<close> names, with their Linux values.\<close>

definition IGNBRK :: "32 word" where "IGNBRK = 0x1"
definition BRKINT :: "32 word" where "BRKINT = 0x2"
definition PARMRK :: "32 word" where "PARMRK = 0x8"
definition ISTRIP :: "32 word" where "ISTRIP = 0x20"
definition INLCR :: "32 word" where "INLCR = 0x40"
definition IGNCR :: "32 word" where "IGNCR = 0x80"
definition ICRNL :: "32 word" where "ICRNL = 0x100"
definition IXON :: "32 word" where "IXON = 0x400"
definition ECHO :: "32 word" where "ECHO = 0x8"
definition ECHONL :: "32 word" where "ECHONL = 0x40"
definition ICANON :: "32 word" where "ICANON = 0x2"
definition ISIG :: "32 word" where "ISIG = 0x1"
definition IEXTEN :: "32 word" where "IEXTEN = 0x8000"
definition CSIZE :: "32 word" where "CSIZE = 0x30"
definition PARENB :: "32 word" where "PARENB = 0x100"
definition CS8 :: "32 word" where "CS8 = 0x30"
definition VMIN :: nat where "VMIN = 6"
definition VTIME :: nat where "VTIME = 5"

text \<open>
  The attributes \<open>tios\<close> that \<open>initConsole\<close> derives from \<open>orig_tios\<close>:
  \<open>x &^= m\<close> clears the bits of \<open>m\<close>, \<open>x |= m\<close> sets them.
\<close>

definition raw_tios :: "termios \<Rightarrow> termios" where
  "raw_tios orig =
     orig\<lparr>Iflag := Iflag orig AND NOT (IGNBRK OR BRKINT OR PARMRK OR ISTRIP OR INLCR OR IGNCR
                                        OR ICRNL OR IXON),
          Lflag := Lflag orig AND NOT (ECHO OR ECHONL OR ICANON OR ISIG OR IEXTEN),
          Cflag := (Cflag orig AND NOT (CSIZE OR PARENB)) OR CS8,
          Cc := (Cc orig)[VMIN := 1, VTIME := 0]\<rparr>"

text \<open>
  What \<open>initConsole\<close> sets up, step by step: the descriptor \<open>out\<close> and the descriptor
  \<open>in\<close> are open; \<open>setup_term\<close> has loaded the terminal's data; \<open>sigio\<close> is
  registered for SIGIO; \<open>in\<close> has the flags \<open>O_ASYNC|O_NONBLOCK\<close>; \<open>in\<close> has this
  process as owner; the variable \<open>orig_tios\<close>; the attributes of the terminal; the two
  goroutines are started.
\<close>

record console =
  out_open :: bool
  in_open :: bool
  term_ready :: bool
  sigio_notified :: bool
  in_async :: bool
  in_owner :: bool
  orig_tios :: termios
  tty :: termios
  reader_started :: bool
  producer_started :: bool

text \<open>
  What the operating system and \<open>setup_term\<close> answer to each call of \<open>initConsole\<close>:
  the errno of a failed system call (\<open>None\<close> when it succeeds), the error of
  \<open>setup_term\<close> (whose code is not part of the sources at hand), and whether
  \<open>runtime.GOOS\<close> is \<open>"darwin"\<close>.
\<close>

record syscalls =
  OpenFile_errno :: "nat option"
  Open_errno :: "nat option"
  setup_term_err :: "error option"
  F_SETFL_errno :: "nat option"
  F_SETOWN_errno :: "nat option"
  GETATTR_errno :: "nat option"
  SETATTR_errno :: "nat option"
  GOOS_darwin :: bool

text \<open>
  \<open>initConsole\<close> from \<open>ioctl(ioctl_GETATTR, &orig_tios)\<close> on. \<open>ioctl\<close> wraps the errno
  with \<open>os.NewSyscallError("SYS_IOCTL", e)\<close>. The result is the state when the function
  returns, and the error it returns (\<open>None\<close> for \<open>nil\<close>).
\<close>

definition initConsole_attrs :: "syscalls \<Rightarrow> console \<Rightarrow> console \<times> error option" where
  "initConsole_attrs sys c =
     (case GETATTR_errno sys of
        Some n \<Rightarrow> (c, Some (SyscallError ''SYS_IOCTL'' (Errno n)))
      | None \<Rightarrow>
          (let c5 = c\<lparr>orig_tios := tty c\<rparr>;
               tios = raw_tios (orig_tios c5)
           in case SETATTR_errno sys of
                Some n \<Rightarrow> (c5, Some (SyscallError ''SYS_IOCTL'' (Errno n)))
              | None \<Rightarrow>
                  (c5\<lparr>tty := tios, reader_started := True, producer_started := True\<rparr>, None)))"

text \<open>
  \<open>initConsole\<close> from \<open>signal.Notify(sigio, unix.SIGIO)\<close> on. \<open>fcntl\<close> returns the
  errno as the error. The error of \<open>F_SETOWN\<close> is returned unless the system is darwin,
  where it is passed over.
\<close>

definition initConsole_async :: "syscalls \<Rightarrow> console \<Rightarrow> console \<times> error option" where
  "initConsole_async sys c =
     (let c3 = c\<lparr>sigio_notified := True\<rparr> in
      case F_SETFL_errno sys of
        Some n \<Rightarrow> (c3, Some (Errno n))
      | None \<Rightarrow>
          (let c4 = c3\<lparr>in_async := True\<rparr> in
           case F_SETOWN_errno sys of
             Some n \<Rightarrow>
               if \<not> GOOS_darwin sys then (c4, Some (Errno n))
               else initConsole_attrs sys c4
           | None \<Rightarrow> initConsole_attrs sys (c4\<lparr>in_owner := True\<rparr>)))"

text \<open>
  \<open>initConsole\<close>. \<open>os.OpenFile\<close> returns a \<open>*PathError\<close>, \<open>syscall.Open\<close> the errno;
  the error of \<open>setup_term\<close> is wrapped by \<open>fmt.Errorf\<close>. No path of the function
  closes a descriptor.
\<close>

definition initConsole :: "syscalls \<Rightarrow> console \<Rightarrow> console \<times> error option" where
  "initConsole sys c =
     (case OpenFile_errno sys of
        Some n \<Rightarrow> (c, Some (PathError ''open'' ''/dev/tty'' (Errno n)))
      | None \<Rightarrow>
          (let c1 = c\<lparr>out_open := True\<rparr> in
           case Open_errno sys of
             Some n \<Rightarrow> (c1, Some (Errno n))
           | None \<Rightarrow>
               (let c2 = c1\<lparr>in_open := True\<rparr> in
                case setup_term_err sys of
                  Some e \<Rightarrow> (c2, Some (Errorf ''Error while reading terminfo data: %v'' e))
                | None \<Rightarrow> initConsole_async sys (c2\<lparr>term_ready := True\<rparr>))))"

text \<open>The state before \<open>initConsole\<close>: nothing is open or armed; the terminal has the attributes \<open>t\<close>.\<close>

definition zero_termios :: termios where
  "zero_termios =
     \<lparr>Iflag = 0, Oflag = 0, Cflag = 0, Lflag = 0, Line = 0, Cc = replicate 19 0,
      Ispeed = 0, Ospeed = 0\<rparr>"

definition console_closed :: "termios \<Rightarrow> console" where
  "console_closed t =
     \<lparr>out_open = False, in_open = False, term_ready = False, sigio_notified = False,
      in_async = False, in_owner = False, orig_tios = zero_termios, tty = t,
      reader_started = False, producer_started = False\<rparr>"

text \<open>Every call succeeds.\<close>

definition all_succeed :: syscalls where
  "all_succeed =
     \<lparr>OpenFile_errno = None, Open_errno = None, setup_term_err = None, F_SETFL_errno = None,
      F_SETOWN_errno = None, GETATTR_errno = None, SETATTR_errno = None, GOOS_darwin = False\<rparr>"

text \<open>Some step of \<open>initConsole\<close> fails, in the sense of the code.\<close>

definition some_step_fails :: "syscalls \<Rightarrow> bool" where
  "some_step_fails sys =
     (OpenFile_errno sys \<noteq> None \<or> Open_errno sys \<noteq> None \<or> setup_term_err sys \<noteq> None
      \<or> F_SETFL_errno sys \<noteq> None \<or> (F_SETOWN_errno sys \<noteq> None \<and> \<not> GOOS_darwin sys)
      \<or> GETATTR_errno sys \<noteq> None \<or> SETATTR_errno sys \<noteq> None)"

section \<open>Inputs of the scenarios\<close>

text \<open>
  The values the package gives the three key constants (\<open>KeyEsc = 0x1B\<close>,
  \<open>KeySpace = 0x20\<close>, \<open>KeyBackspace2 = 0x7F\<close>), for the concrete scenarios.
\<close>

definition std_keydefs :: keydefs where
  "std_keydefs = \<lparr>KeyEsc = 0x1B, KeySpace = 0x20, KeyBackspace2 = 0x7F\<rparr>"

text \<open>The table with the two entries \<open>"\x1bOP"\<close> (F1) and \<open>"\x1bOQ"\<close> (F2).\<close>

definition f1f2_keys :: "gostring list" where
  "f1f2_keys = [[0x1B, 0x4F, 0x50], [0x1B, 0x4F, 0x51]]"

definition chunk :: "byte list \<Rightarrow> input_event" where
  "chunk bs = \<lparr>data = bs, ioerr = None\<rparr>"

section \<open>Predicates of the specification on buffers and tables\<close>

text \<open>Some entry's full literal is a prefix of the buffer.\<close>

definition some_entry_matches :: "gostring list \<Rightarrow> byte list \<Rightarrow> bool" where
  "some_entry_matches keys buf = list_ex (\<lambda>k. HasPrefix buf k) keys"

text \<open>The buffer is a proper prefix of some entry's literal.\<close>

definition partial_of_some_entry :: "gostring list \<Rightarrow> byte list \<Rightarrow> bool" where
  "partial_of_some_entry keys buf =
     list_ex (\<lambda>k. length buf < length k \<and> take (length buf) k = buf) keys"

text \<open>
  The literals of the table are escape sequences, which begin with the escape byte: none
  of them is empty.
\<close>

definition nonempty_literals :: "gostring list \<Rightarrow> bool" where
  "nonempty_literals keys = list_all (\<lambda>k. k \<noteq> []) keys"

text \<open>Entry \<open>i\<close> is the first entry in table order whose literal is a prefix of the buffer.\<close>

definition first_match :: "gostring list \<Rightarrow> byte list \<Rightarrow> nat \<Rightarrow> bool" where
  "first_match keys buf i =
     (i < length keys \<and> HasPrefix buf (keys ! i)
      \<and> list_all (\<lambda>k. \<not> HasPrefix buf k) (take i keys))"

text \<open>The event of a functional key, of a scalar, and the Esc event.\<close>

definition key_event :: "Key \<Rightarrow> keyEvent" where
  "key_event k = \<lparr>key = k, rune = 0, err = None\<rparr>"

definition rune_event :: "rune \<Rightarrow> keyEvent" where
  "rune_event r = \<lparr>key = 0, rune = r, err = None\<rparr>"

section \<open>The standard variable-length encoding of a scalar\<close>

text \<open>
  What the specification calls the standard variable-length text encoding is UTF-8. A
  Unicode scalar value is a code point up to U+10FFFF that is not a surrogate
  (U+D800 to U+DFFF). Its encoding has one to four bytes, given here by their values.
\<close>

definition scalar_value :: "nat \<Rightarrow> bool" where
  "scalar_value c = (c < 0xD800 \<or> (0xDFFF < c \<and> c \<le> 0x10FFFF))"

definition utf8_encoding :: "nat \<Rightarrow> nat list" where
  "utf8_encoding c =
     (if c < 0x80 then [c]
      else if c < 0x800 then [0xC0 + c div 0x40, 0x80 + c mod 0x40]
      else if c < 0x10000 then
        [0xE0 + c div 0x1000, 0x80 + c div 0x40 mod 0x40, 0x80 + c mod 0x40]
      else
        [0xF0 + c div 0x40000, 0x80 + c div 0x1000 mod 0x40, 0x80 + c div 0x40 mod 0x40,
         0x80 + c mod 0x40])"

definition bytes_of :: "nat list \<Rightarrow> byte list" where
  "bytes_of ns = map of_nat ns"

section \<open>Unfolding sets for concrete inputs\<close>

lemmas scenario_defs =
  std_keydefs_def f1f2_keys_def chunk_def key_event_def rune_event_def keyEvent_zero_def

lemmas decoder_defs =
  extract_event_def parse_escape_sequence_def HasPrefix_def Key_of_index_def Key_of_byte_def

lemmas utf8_defs =
  DecodeRune_def first_def acceptRanges_def rune_of_def RuneError_def Let_def
  locb_def hicb_def maskx_def mask2_def mask3_def mask4_def
  xx_def as_def s1_def s2_def s3_def s4_def s5_def s6_def s7_def

lemmas producer_defs =
  inputEventsProducer_def extract_and_produce_def on_input_event_def consume_def

lemmas system_defs =
  step_def after_read_def after_produce_def console_open_def EAGAIN_def EWOULDBLOCK_def

lemmas initConsole_defs =
  initConsole_def initConsole_async_def initConsole_attrs_def console_closed_def Let_def

section \<open>The decoder: sizes\<close>

lemma first_cases:
  "first b = as \<or> first b = xx \<or> first b = s1 \<or> first b = s2 \<or> first b = s3
     \<or> first b = s4 \<or> first b = s5 \<or> first b = s6 \<or> first b = s7"
  by (simp add: first_def)

lemma DecodeRune_size_le:
  assumes "p \<noteq> []"
  shows "snd (DecodeRune p) \<le> length p"
proof -
  from assms have len: "1 \<le> length p" by (cases p) simp_all
  from first_cases [of "p ! 0"] show ?thesis
    using len
    by (elim disjE)
      (simp_all add: DecodeRune_def Let_def as_def xx_def s1_def s2_def s3_def s4_def
        s5_def s6_def s7_def)
qed

lemma parse_escape_loop_le:
  "fst (parse_escape_loop i ks buf) \<le> length buf"
  by (induction ks arbitrary: i) (simp_all add: HasPrefix_def)

lemma extract_event_size_le:
  assumes "extract_event K keys b = (sz, event)"
  shows "sz \<le> length b"
proof (cases "b = []")
  case True
  with assms show ?thesis by (simp add: extract_event_def)
next
  case False
  then have len: "1 \<le> length b" by (cases b) simp_all
  have esc: "fst (parse_escape_sequence keys b) \<le> length b"
    by (simp add: parse_escape_sequence_def parse_escape_loop_le)
  have dec: "snd (DecodeRune b) \<le> length b"
    using False by (rule DecodeRune_size_le)
  show ?thesis
    using assms False len esc dec
    by (auto simp: extract_event_def split: prod.splits if_splits)
qed

text \<open>
  Claim C9. Whatever the buffer, the table and the key constants, the consumed count
  that \<open>extract_event\<close> returns is at most the length of the buffer.
\<close>

theorem extract_event_consumed_le:
  "fst (extract_event K keys b) \<le> length b"
proof -
  obtain sz event where r: "extract_event K keys b = (sz, event)"
    by (cases "extract_event K keys b")
  then have "sz \<le> length b"
    by (rule extract_event_size_le)
  with r show ?thesis by simp
qed

section \<open>The producer does not panic\<close>

lemma extract_and_produce_no_panic:
  "extract_and_produce K keys buf \<noteq> None"
proof -
  obtain sz event where e: "extract_event K keys buf = (sz, event)"
    by (cases "extract_event K keys buf")
  then have "sz \<le> length buf"
    by (rule extract_event_size_le)
  with e show ?thesis
    by (simp add: extract_and_produce_def consume_def)
qed

lemma on_input_event_no_panic:
  "on_input_event K keys buf ev \<noteq> None"
  using extract_and_produce_no_panic [of K keys "buf @ data ev"]
  by (auto simp: on_input_event_def split: option.splits)

lemma producer_loop_total:
  "\<exists>b outs. producer_loop K keys buf evs = Some (b, outs)"
proof (induction evs arbitrary: buf)
  case Nil
  show ?case by simp
next
  case (Cons ev evs)
  from on_input_event_no_panic [of K keys buf ev]
  obtain b' out c where o: "on_input_event K keys buf ev = Some (b', out, c)"
    by (cases "on_input_event K keys buf ev") auto
  from Cons.IH [of b'] obtain b outs where "producer_loop K keys b' evs = Some (b, outs)"
    by blast
  with o show ?case by (cases c) simp_all
qed

section \<open>The decoder on a buffer that starts with the escape byte\<close>

lemma parse_escape_loop_no_match:
  "list_all (\<lambda>k. \<not> HasPrefix buf k) ks \<Longrightarrow> parse_escape_loop i ks buf = (0, keyEvent_zero)"
  by (induction ks arbitrary: i) simp_all

lemma parse_escape_loop_first_match:
  "first_match ks buf n \<Longrightarrow>
     parse_escape_loop i ks buf = (length (ks ! n), key_event (Key_of_index (i + n)))"
proof (induction ks arbitrary: i n)
  case Nil
  then show ?case by (simp add: first_match_def)
next
  case (Cons k ks)
  show ?case
  proof (cases n)
    case 0
    with Cons.prems show ?thesis
      by (simp add: first_match_def key_event_def keyEvent_zero_def)
  next
    case (Suc m)
    with Cons.prems have "first_match ks buf m" and "\<not> HasPrefix buf k"
      by (simp_all add: first_match_def)
    with Cons.IH [of m "Suc i"] Suc show ?thesis by simp
  qed
qed

lemma parse_escape_sequence_no_match:
  assumes "\<not> some_entry_matches keys buf"
  shows "parse_escape_sequence keys buf = (0, keyEvent_zero)"
proof -
  from assms have "list_all (\<lambda>k. \<not> HasPrefix buf k) keys"
    by (simp add: some_entry_matches_def list_ex_iff list_all_iff)
  then show ?thesis
    by (simp add: parse_escape_sequence_def parse_escape_loop_no_match)
qed

text \<open>
  Claim C10. On a non-empty buffer whose first byte is 0x1B, \<open>extract_event\<close> returns a
  consumed count of at least 1: the result is either the table match that
  \<open>parse_escape_sequence\<close> found, or Esc with the whole buffer consumed.
\<close>

theorem extract_event_escape_resolved:
  assumes "b \<noteq> []" and "b ! 0 = 0x1B"
  shows "1 \<le> fst (extract_event K keys b)
         \<and> (extract_event K keys b = parse_escape_sequence keys b
            \<or> extract_event K keys b = (length b, key_event (KeyEsc K)))"
proof -
  from assms(1) have len: "1 \<le> length b" by (cases b) simp_all
  obtain sz event where p: "parse_escape_sequence keys b = (sz, event)"
    by (cases "parse_escape_sequence keys b")
  show ?thesis
  proof (cases "sz = 0")
    case True
    with assms len p show ?thesis
      by (simp add: extract_event_def key_event_def keyEvent_zero_def)
  next
    case False
    with assms len p show ?thesis
      by (simp add: extract_event_def)
  qed
qed

theorem extract_event_escape_resolved_witness:
  "1 \<le> fst (extract_event std_keydefs f1f2_keys [0x1B, 0x4F])
   \<and> extract_event std_keydefs f1f2_keys [0x1B, 0x4F] = (2, key_event 0x1B)"
  using extract_event_escape_resolved [of "[0x1B, 0x4F]" std_keydefs f1f2_keys]
  by (simp add: decoder_defs scenario_defs)

text \<open>
  Claim C6. On a buffer that starts with 0x1B and has no table entry's literal as a
  prefix, \<open>extract_event\<close> consumes the whole buffer and returns the Esc event. The
  witness is the scenario of the bytes 0x1B \<open>Z\<close>: Esc, 2 bytes consumed.
\<close>

theorem extract_event_unmatched_escape:
  assumes "buf \<noteq> []" and "buf ! 0 = 0x1B" and "\<not> some_entry_matches keys buf"
  shows "extract_event K keys buf = (length buf, key_event (KeyEsc K))"
proof -
  from assms(3) have "parse_escape_sequence keys buf = (0, keyEvent_zero)"
    by (rule parse_escape_sequence_no_match)
  with assms(1,2) show ?thesis
    by (simp add: extract_event_def key_event_def keyEvent_zero_def)
qed

theorem extract_event_unmatched_escape_witness:
  "\<not> some_entry_matches f1f2_keys [0x1B, 0x5A]
   \<and> extract_event std_keydefs f1f2_keys [0x1B, 0x5A] = (2, key_event 0x1B)"
  using extract_event_unmatched_escape [of "[0x1B, 0x5A]" f1f2_keys std_keydefs]
  by (simp add: some_entry_matches_def HasPrefix_def scenario_defs)

lemma first_match_exists:
  assumes "j < length keys" and "HasPrefix buf (keys ! j)"
  shows "\<exists>n\<le>j. first_match keys buf n"
proof -
  define n where "n = (LEAST m. m < length keys \<and> HasPrefix buf (keys ! m))"
  from assms have ex: "j < length keys \<and> HasPrefix buf (keys ! j)" by simp
  then have n: "n < length keys \<and> HasPrefix buf (keys ! n)"
    unfolding n_def by (rule LeastI)
  from ex have le: "n \<le> j"
    unfolding n_def by (rule Least_le)
  have before: "\<not> HasPrefix buf (keys ! m)" if "m < n" for m
  proof
    assume "HasPrefix buf (keys ! m)"
    with that n have "m < length keys \<and> HasPrefix buf (keys ! m)" by simp
    then have "n \<le> m" unfolding n_def by (rule Least_le)
    with that show False by simp
  qed
  have "list_all (\<lambda>k. \<not> HasPrefix buf k) (take n keys)"
    unfolding list_all_iff
  proof
    fix k assume "k \<in> set (take n keys)"
    then obtain m where m: "m < length (take n keys)" and k: "k = take n keys ! m"
      by (auto simp: in_set_conv_nth)
    from m have "m < n" by simp
    with k have "k = keys ! m" by simp
    with before [OF \<open>m < n\<close>] show "\<not> HasPrefix buf k" by simp
  qed
  with n le show ?thesis by (auto simp: first_match_def)
qed

text \<open>
  Claim C5. The table holds escape sequences, so none of its literals is empty. On a
  buffer that starts with 0x1B, when entry \<open>i\<close> is the first entry in table order whose
  literal is a prefix of the buffer, \<open>extract_event\<close> returns the length of that literal
  and the key \<open>Key(0xFFFF - i)\<close> of that entry. In particular, on a buffer that is
  exactly the literal of entry \<open>j\<close>, the result is that of the first entry in table
  order that is a prefix of it, which is \<open>j\<close> or an entry before it. The witness has
  two entries of which one is a prefix of the other, in both orders: the first in table
  order wins.
\<close>

theorem extract_event_first_match:
  assumes "nonempty_literals keys" and "buf \<noteq> []" and "buf ! 0 = 0x1B"
  shows "(first_match keys buf i \<longrightarrow>
            extract_event K keys buf = (length (keys ! i), key_event (Key_of_index i)))
         \<and> (j < length keys \<longrightarrow> buf = keys ! j \<longrightarrow>
              (\<exists>n\<le>j. first_match keys buf n
                 \<and> extract_event K keys buf = (length (keys ! n), key_event (Key_of_index n))))"
proof -
  have hit: "extract_event K keys buf = (length (keys ! n), key_event (Key_of_index n))"
    if fm: "first_match keys buf n" for n
  proof -
    from fm have "n < length keys" by (simp add: first_match_def)
    with assms(1) have ne: "keys ! n \<noteq> []"
      by (simp add: nonempty_literals_def list_all_length)
    from fm have "parse_escape_sequence keys buf
                  = (length (keys ! n), key_event (Key_of_index n))"
      using parse_escape_loop_first_match [of keys buf n 0]
      by (simp add: parse_escape_sequence_def)
    with assms(2,3) ne show ?thesis
      by (simp add: extract_event_def)
  qed
  have self: "\<exists>n\<le>j. first_match keys buf n
                \<and> extract_event K keys buf = (length (keys ! n), key_event (Key_of_index n))"
    if "j < length keys" and "buf = keys ! j"
  proof -
    from that have "HasPrefix buf (keys ! j)" by (simp add: HasPrefix_def)
    with that(1) obtain n where "n \<le> j" and "first_match keys buf n"
      using first_match_exists by blast
    with hit [of n] show ?thesis by blast
  qed
  from hit self show ?thesis by blast
qed

theorem extract_event_first_match_witness:
  "nonempty_literals [[0x1B, 0x4F], [0x1B, 0x4F, 0x50]]
   \<and> first_match [[0x1B, 0x4F], [0x1B, 0x4F, 0x50]] [0x1B, 0x4F, 0x50] 0
   \<and> extract_event std_keydefs [[0x1B, 0x4F], [0x1B, 0x4F, 0x50]] [0x1B, 0x4F, 0x50]
       = (2, key_event 0xFFFF)
   \<and> nonempty_literals [[0x1B, 0x4F, 0x50], [0x1B, 0x4F]]
   \<and> first_match [[0x1B, 0x4F, 0x50], [0x1B, 0x4F]] [0x1B, 0x4F, 0x50] 0
   \<and> extract_event std_keydefs [[0x1B, 0x4F, 0x50], [0x1B, 0x4F]] [0x1B, 0x4F, 0x50]
       = (3, key_event 0xFFFF)
   \<and> nonempty_literals f1f2_keys
   \<and> first_match f1f2_keys [0x1B, 0x4F, 0x51, 0x61] 1
   \<and> extract_event std_keydefs f1f2_keys [0x1B, 0x4F, 0x51, 0x61] = (3, key_event 0xFFFE)"
  using
    extract_event_first_match [of "[[0x1B, 0x4F], [0x1B, 0x4F, 0x50]]" "[0x1B, 0x4F, 0x50]" 0 std_keydefs 1]
    extract_event_first_match [of "[[0x1B, 0x4F, 0x50], [0x1B, 0x4F]]" "[0x1B, 0x4F, 0x50]" 0 std_keydefs 0]
    extract_event_first_match [of f1f2_keys "[0x1B, 0x4F, 0x51, 0x61]" 1 std_keydefs 0]
  by (simp add: nonempty_literals_def first_match_def HasPrefix_def Key_of_index_def f1f2_keys_def)


text \<open>
  Claim C1, as amended. On a buffer that starts with 0x1B, is a proper prefix of some
  entry's literal and has no entry's literal as a prefix, \<open>extract_event\<close> does not wait:
  it consumes the whole buffer and returns Esc. Consequently the producer that receives
  such a partial sequence as a chunk on an empty buffer sends Esc at once and keeps
  nothing, and whatever chunks follow are decoded from an empty buffer: the events of a
  feed that begins with the partial sequence are Esc, then the events of the rest of the
  feed alone. So the first byte of a multi-byte escape sequence fed one byte at a time
  gives an event before the full sequence is present.

  The counterexample to the claim as written: with the table of F1 and F2, the buffer
  0x1B \<open>O\<close> is consumed as Esc, and the bytes 0x1B, \<open>O\<close>, \<open>P\<close> fed one at a time give
  Esc, \<open>O\<close>, \<open>P\<close> where the three bytes at once give F1.
\<close>

theorem partial_escape_is_Esc:
  assumes "buf \<noteq> []" and "buf ! 0 = 0x1B"
    and "partial_of_some_entry keys buf" and "\<not> some_entry_matches keys buf"
  shows "extract_event K keys buf = (length buf, key_event (KeyEsc K))
         \<and> inputEventsProducer K keys [] [chunk buf] = Some ([], [key_event (KeyEsc K)])
         \<and> (\<exists>b outs. inputEventsProducer K keys [] evs = Some (b, outs)
               \<and> inputEventsProducer K keys [] (chunk buf # evs)
                   = Some (b, key_event (KeyEsc K) # outs))"
proof -
  from assms(1) have len: "0 < length buf" by simp
  from assms(4) have "parse_escape_sequence keys buf = (0, keyEvent_zero)"
    by (rule parse_escape_sequence_no_match)
  with assms(1,2) have dec: "extract_event K keys buf = (length buf, key_event (KeyEsc K))"
    by (simp add: extract_event_def key_event_def keyEvent_zero_def)
  have start: "extract_and_produce K keys [] = Some ([], None)"
    by (simp add: extract_and_produce_def extract_event_def)
  have first: "on_input_event K keys [] (chunk buf)
               = Some ([], Some (key_event (KeyEsc K)), True)"
    using dec len by (simp add: on_input_event_def chunk_def extract_and_produce_def consume_def)
  from start first have one: "inputEventsProducer K keys [] [chunk buf]
                               = Some ([], [key_event (KeyEsc K)])"
    by (simp add: inputEventsProducer_def)
  from producer_loop_total [of K keys "[]" evs]
  obtain b outs where rest: "producer_loop K keys [] evs = Some (b, outs)" by blast
  from start rest have later: "inputEventsProducer K keys [] evs = Some (b, outs)"
    by (simp add: inputEventsProducer_def)
  from start first rest have "inputEventsProducer K keys [] (chunk buf # evs)
                              = Some (b, key_event (KeyEsc K) # outs)"
    by (simp add: inputEventsProducer_def)
  with dec one later show ?thesis by blast
qed

theorem partial_escape_is_Esc_witness:
  "partial_of_some_entry f1f2_keys [0x1B] \<and> \<not> some_entry_matches f1f2_keys [0x1B]
   \<and> extract_event std_keydefs f1f2_keys [0x1B] = (1, key_event 0x1B)
   \<and> inputEventsProducer std_keydefs f1f2_keys [] [chunk [0x1B]] = Some ([], [key_event 0x1B])
   \<and> inputEventsProducer std_keydefs f1f2_keys [] [chunk [0x4F], chunk [0x50]]
       = Some ([], [rune_event 0x4F, rune_event 0x50])
   \<and> inputEventsProducer std_keydefs f1f2_keys [] [chunk [0x1B], chunk [0x4F], chunk [0x50]]
       = Some ([], [key_event 0x1B, rune_event 0x4F, rune_event 0x50])"
  using partial_escape_is_Esc [of "[0x1B]" f1f2_keys std_keydefs "[chunk [0x4F], chunk [0x50]]"]
  by (simp add: partial_of_some_entry_def some_entry_matches_def producer_defs decoder_defs
      scenario_defs utf8_defs)

theorem partial_escape_waits_counterexample:
  "[0x1B, 0x4F] ! 0 = (0x1B :: byte)
   \<and> partial_of_some_entry f1f2_keys [0x1B, 0x4F]
   \<and> \<not> some_entry_matches f1f2_keys [0x1B, 0x4F]
   \<and> extract_event std_keydefs f1f2_keys [0x1B, 0x4F] = (2, key_event 0x1B)
   \<and> fst (extract_event std_keydefs f1f2_keys [0x1B, 0x4F]) \<noteq> 0
   \<and> inputEventsProducer std_keydefs f1f2_keys [] [chunk [0x1B], chunk [0x4F], chunk [0x50]]
       = Some ([], [key_event 0x1B, rune_event 0x4F, rune_event 0x50])
   \<and> inputEventsProducer std_keydefs f1f2_keys [] [chunk [0x1B, 0x4F, 0x50]]
       = Some ([], [key_event 0xFFFF])"
  by (simp add: partial_of_some_entry_def some_entry_matches_def producer_defs decoder_defs
      scenario_defs utf8_defs)

section \<open>\<open>DecodeRune\<close> on the encoding of a scalar\<close>

lemma and_mask_nat: "(n::nat) AND mask k = n mod 2 ^ k"
proof -
  have "take_bit k n = n AND mask k" by (rule take_bit_eq_mask)
  then show ?thesis by (simp add: take_bit_eq_mod)
qed

lemma and63_nat: "(n::nat) AND 63 = n mod 64"
  using and_mask_nat [of n 6] by (simp add: mask_eq_exp_minus_1)

lemma and31_nat: "(n::nat) AND 31 = n mod 32"
  using and_mask_nat [of n 5] by (simp add: mask_eq_exp_minus_1)

lemma and15_nat: "(n::nat) AND 15 = n mod 16"
  using and_mask_nat [of n 4] by (simp add: mask_eq_exp_minus_1)

lemma and7_nat: "(n::nat) AND 7 = n mod 8"
  using and_mask_nat [of n 3] by (simp add: mask_eq_exp_minus_1)

lemma push_or_nat:
  assumes "b < 2 ^ n"
  shows "a * 2 ^ n OR b = a * 2 ^ n + (b::nat)"
proof -
  from assms have b: "take_bit n b = b" by (simp add: take_bit_nat_eq_self)
  have "push_bit n a + take_bit n b = push_bit n a OR take_bit n b"
    by (rule disjunctive_add) (auto simp: bit_simps)
  with b show ?thesis by (simp add: push_bit_eq_mult)
qed

lemma unat_byte_lt: "unat (b::byte) < 256"
  using unsigned_less [of b] by simp

lemma unat_rune_of: "unat (rune_of b) = unat b"
proof -
  have "unat (rune_of b) = take_bit 32 (unat b)"
    by (simp add: rune_of_def unsigned_ucast_eq)
  also have "\<dots> = unat b"
    using unat_byte_lt [of b] by (simp add: take_bit_nat_eq_self)
  finally show ?thesis .
qed

lemma unat_push_rune:
  assumes "unat (w::rune) * 2 ^ n < 2 ^ 32"
  shows "unat (push_bit n w) = unat w * 2 ^ n"
proof -
  have "unat (push_bit n w) = take_bit 32 (push_bit n (unat w))"
    by (simp only: unsigned_push_bit_eq) simp
  also have "\<dots> = unat w * 2 ^ n"
    using assms by (simp add: push_bit_eq_mult take_bit_nat_eq_self)
  finally show ?thesis .
qed

lemma unat_of_nat_rune: "n < 4294967296 \<Longrightarrow> unat (of_nat n :: rune) = n"
  by (simp add: unat_of_nat)

lemma compose2:
  fixes x y :: byte
  assumes "unat x < 32" and "unat y < 64"
  shows "push_bit 6 (rune_of x) OR rune_of y = (of_nat (unat x * 64 + unat y) :: rune)"
proof -
  have p: "unat (push_bit 6 (rune_of x)) = unat x * 64"
    using assms unat_push_rune [of "rune_of x" 6] by (simp add: unat_rune_of)
  have "unat (push_bit 6 (rune_of x) OR rune_of y) = unat x * 64 OR unat y"
    by (simp only: unsigned_or_eq p unat_rune_of)
  also have "\<dots> = unat x * 64 + unat y"
    using assms push_or_nat [of "unat y" 6 "unat x"] by simp
  finally have l: "unat (push_bit 6 (rune_of x) OR rune_of y) = unat x * 64 + unat y" .
  have "unat (of_nat (unat x * 64 + unat y) :: rune) = unat x * 64 + unat y"
    by (rule unat_of_nat_rune) (use assms in simp)
  with l show ?thesis by (simp only: word_unat_eq_iff)
qed


lemma compose3:
  fixes x y z :: byte
  assumes "unat x < 16" and "unat y < 64" and "unat z < 64"
  shows "push_bit 12 (rune_of x) OR push_bit 6 (rune_of y) OR rune_of z
         = (of_nat (unat x * 4096 + unat y * 64 + unat z) :: rune)"
proof -
  have px: "unat (push_bit 12 (rune_of x)) = unat x * 4096"
    using assms unat_push_rune [of "rune_of x" 12] by (simp add: unat_rune_of)
  have py: "unat (push_bit 6 (rune_of y)) = unat y * 64"
    using assms unat_push_rune [of "rune_of y" 6] by (simp add: unat_rune_of)
  have yz: "unat y * 64 OR unat z = unat y * 64 + unat z"
    using assms push_or_nat [of "unat z" 6 "unat y"] by simp
  have xyz: "unat x * 4096 OR (unat y * 64 + unat z) = unat x * 4096 + (unat y * 64 + unat z)"
    using assms push_or_nat [of "unat y * 64 + unat z" 12 "unat x"] by simp
  have "unat (push_bit 12 (rune_of x) OR push_bit 6 (rune_of y) OR rune_of z)
        = unat x * 4096 OR (unat y * 64 OR unat z)"
    by (simp only: unsigned_or_eq px py unat_rune_of)
  with yz xyz have l: "unat (push_bit 12 (rune_of x) OR push_bit 6 (rune_of y) OR rune_of z)
        = unat x * 4096 + unat y * 64 + unat z" by simp
  have "unat (of_nat (unat x * 4096 + unat y * 64 + unat z) :: rune)
        = unat x * 4096 + unat y * 64 + unat z"
    by (rule unat_of_nat_rune) (use assms in simp)
  with l show ?thesis by (simp only: word_unat_eq_iff)
qed

lemma compose4:
  fixes x y z w :: byte
  assumes "unat x < 8" and "unat y < 64" and "unat z < 64" and "unat w < 64"
  shows "push_bit 18 (rune_of x) OR push_bit 12 (rune_of y) OR push_bit 6 (rune_of z) OR rune_of w
         = (of_nat (unat x * 262144 + unat y * 4096 + unat z * 64 + unat w) :: rune)"
proof -
  have px: "unat (push_bit 18 (rune_of x)) = unat x * 262144"
    using assms unat_push_rune [of "rune_of x" 18] by (simp add: unat_rune_of)
  have py: "unat (push_bit 12 (rune_of y)) = unat y * 4096"
    using assms unat_push_rune [of "rune_of y" 12] by (simp add: unat_rune_of)
  have pz: "unat (push_bit 6 (rune_of z)) = unat z * 64"
    using assms unat_push_rune [of "rune_of z" 6] by (simp add: unat_rune_of)
  have zw: "unat z * 64 OR unat w = unat z * 64 + unat w"
    using assms push_or_nat [of "unat w" 6 "unat z"] by simp
  have yzw: "unat y * 4096 OR (unat z * 64 + unat w) = unat y * 4096 + (unat z * 64 + unat w)"
    using assms push_or_nat [of "unat z * 64 + unat w" 12 "unat y"] by simp
  have xyzw: "unat x * 262144 OR (unat y * 4096 + (unat z * 64 + unat w))
              = unat x * 262144 + (unat y * 4096 + (unat z * 64 + unat w))"
    using assms push_or_nat [of "unat y * 4096 + (unat z * 64 + unat w)" 18 "unat x"] by simp
  have "unat (push_bit 18 (rune_of x) OR push_bit 12 (rune_of y) OR push_bit 6 (rune_of z)
          OR rune_of w)
        = unat x * 262144 OR (unat y * 4096 OR (unat z * 64 OR unat w))"
    by (simp only: unsigned_or_eq px py pz unat_rune_of)
  with zw yzw xyzw have l: "unat (push_bit 18 (rune_of x) OR push_bit 12 (rune_of y)
          OR push_bit 6 (rune_of z) OR rune_of w)
        = unat x * 262144 + unat y * 4096 + unat z * 64 + unat w" by simp
  have "unat (of_nat (unat x * 262144 + unat y * 4096 + unat z * 64 + unat w) :: rune)
        = unat x * 262144 + unat y * 4096 + unat z * 64 + unat w"
    by (rule unat_of_nat_rune) (use assms in simp)
  with l show ?thesis by (simp only: word_unat_eq_iff)
qed

lemma unat_and_maskx: "unat ((b::byte) AND maskx) = unat b mod 64"
  by (simp add: maskx_def unsigned_and_eq and63_nat)

lemma unat_and_mask2: "unat ((b::byte) AND mask2) = unat b mod 32"
  by (simp add: mask2_def unsigned_and_eq and31_nat)

lemma unat_and_mask3: "unat ((b::byte) AND mask3) = unat b mod 16"
  by (simp add: mask3_def unsigned_and_eq and15_nat)

lemma unat_and_mask4: "unat ((b::byte) AND mask4) = unat b mod 8"
  by (simp add: mask4_def unsigned_and_eq and7_nat)

lemma first_nat:
  "first b =
     (if unat b \<le> 0x7F then as
      else if unat b \<le> 0xC1 then xx
      else if unat b \<le> 0xDF then s1
      else if unat b = 0xE0 then s2
      else if unat b \<le> 0xEC then s3
      else if unat b = 0xED then s4
      else if unat b \<le> 0xEF then s3
      else if unat b = 0xF0 then s5
      else if unat b \<le> 0xF3 then s6
      else if unat b = 0xF4 then s7
      else xx)"
  by (simp add: first_def word_le_nat_alt word_unat_eq_iff)


lemmas table_defs = as_def xx_def s1_def s2_def s3_def s4_def s5_def s6_def s7_def

lemma DecodeRune_1:
  assumes "unat b0 \<le> 0x7F"
  shows "DecodeRune (b0 # rest) = (rune_of b0, 1)"
  using assms by (simp add: DecodeRune_def first_nat Let_def table_defs rune_of_def)


lemma mod_offset:
  fixes n :: nat
  assumes "q * m \<le> n" and "n < q * m + m"
  shows "n mod m = n - q * m"
proof -
  define k where "k = n - q * m"
  with assms have n: "n = q * m + k" and k: "k < m" by simp_all
  have "(q * m + k) mod m = k mod m" by (rule mod_mult_self3)
  with n k show ?thesis by simp
qed

lemma mod32_C: "192 \<le> (n::nat) \<Longrightarrow> n \<le> 223 \<Longrightarrow> n mod 32 = n - 192"
  using mod_offset [of 6 32 n] by simp

lemma mod64_cont: "128 \<le> (n::nat) \<Longrightarrow> n \<le> 191 \<Longrightarrow> n mod 64 = n - 128"
  using mod_offset [of 2 64 n] by simp

lemma mod16_E: "224 \<le> (n::nat) \<Longrightarrow> n \<le> 239 \<Longrightarrow> n mod 16 = n - 224"
  using mod_offset [of 14 16 n] by simp

lemma mod8_F: "240 \<le> (n::nat) \<Longrightarrow> n \<le> 247 \<Longrightarrow> n mod 8 = n - 240"
  using mod_offset [of 30 8 n] by simp


lemma cont_ok:
  assumes "0x80 \<le> unat (b::byte)" and "unat b \<le> 0xBF"
  shows "\<not> (b < locb \<or> hicb < b)"
  using assms by (simp add: locb_def hicb_def word_less_nat_alt)

lemma DecodeRune_2:
  assumes "0xC2 \<le> unat b0" and "unat b0 \<le> 0xDF"
    and "0x80 \<le> unat b1" and "unat b1 \<le> 0xBF"
  shows "DecodeRune (b0 # b1 # rest)
         = (of_nat ((unat b0 - 0xC0) * 64 + (unat b1 - 0x80)), 2)"
proof -
  have x: "unat (b0 AND mask2) = unat b0 - 0xC0"
    using assms mod32_C [of "unat b0"] by (simp add: unat_and_mask2)
  have y: "unat (b1 AND maskx) = unat b1 - 0x80"
    using assms mod64_cont [of "unat b1"] by (simp add: unat_and_maskx)
  have "unat (b0 AND mask2) < 32" and "unat (b1 AND maskx) < 64"
    by (simp_all add: unat_and_mask2 unat_and_maskx)
  then have c: "push_bit 6 (rune_of (b0 AND mask2)) OR rune_of (b1 AND maskx)
           = of_nat (unat (b0 AND mask2) * 64 + unat (b1 AND maskx))"
    by (rule compose2)
  have f: "first b0 = s1"
    using assms by (simp add: first_nat)
  have acc: "acceptRanges (drop_bit 4 s1) = \<lparr>lo = locb, hi = hicb\<rparr>"
    by (simp add: s1_def acceptRanges_def)
  have sz: "unat (s1 AND 7) = 2" and nas: "\<not> as \<le> s1"
    by (simp_all add: s1_def as_def)
  from cont_ok [OF assms(3,4)] have ok: "\<not> (b1 < locb \<or> hicb < b1)" .
  show ?thesis
    using ok by (simp add: DecodeRune_def Let_def f acc sz nas c x y)
qed


lemma DecodeRune_3:
  assumes "0xE0 \<le> unat b0" and "unat b0 \<le> 0xEF"
    and "0x80 \<le> unat b1" and "unat b1 \<le> 0xBF"
    and "unat b0 = 0xE0 \<Longrightarrow> 0xA0 \<le> unat b1"
    and "unat b0 = 0xED \<Longrightarrow> unat b1 \<le> 0x9F"
    and "0x80 \<le> unat b2" and "unat b2 \<le> 0xBF"
  shows "DecodeRune (b0 # b1 # b2 # rest)
         = (of_nat ((unat b0 - 0xE0) * 4096 + (unat b1 - 0x80) * 64 + (unat b2 - 0x80)), 3)"
proof -
  have x: "unat (b0 AND mask3) = unat b0 - 0xE0"
    using assms(1,2) mod16_E [of "unat b0"] by (simp add: unat_and_mask3)
  have y: "unat (b1 AND maskx) = unat b1 - 0x80"
    using assms(3,4) mod64_cont [of "unat b1"] by (simp add: unat_and_maskx)
  have z: "unat (b2 AND maskx) = unat b2 - 0x80"
    using assms(7,8) mod64_cont [of "unat b2"] by (simp add: unat_and_maskx)
  have "unat (b0 AND mask3) < 16" and "unat (b1 AND maskx) < 64" and "unat (b2 AND maskx) < 64"
    by (simp_all add: unat_and_mask3 unat_and_maskx)
  then have c: "push_bit 12 (rune_of (b0 AND mask3)) OR push_bit 6 (rune_of (b1 AND maskx))
                  OR rune_of (b2 AND maskx)
           = of_nat (unat (b0 AND mask3) * 4096 + unat (b1 AND maskx) * 64 + unat (b2 AND maskx))"
    by (rule compose3)
  from cont_ok [OF assms(7,8)] have ok2: "\<not> (b2 < locb \<or> hicb < b2)" .
  consider "unat b0 = 0xE0" | "unat b0 = 0xED" | "unat b0 \<noteq> 0xE0" "unat b0 \<noteq> 0xED"
    by blast
  then show ?thesis
  proof cases
    case 1
    then have f: "first b0 = s2" by (simp add: first_nat)
    have acc: "acceptRanges (drop_bit 4 s2) = \<lparr>lo = 0xA0, hi = hicb\<rparr>"
      by (simp add: s2_def acceptRanges_def)
    have sz: "unat (s2 AND 7) = 3" and nas: "\<not> as \<le> s2"
      by (simp_all add: s2_def as_def)
    from assms(5) [OF 1] assms(4) have ok1: "\<not> (b1 < 0xA0 \<or> hicb < b1)"
      by (simp add: hicb_def word_less_nat_alt)
    show ?thesis
      using ok1 ok2 by (simp add: DecodeRune_def Let_def f acc sz nas c x y z)
  next
    case 2
    then have f: "first b0 = s4" by (simp add: first_nat)
    have acc: "acceptRanges (drop_bit 4 s4) = \<lparr>lo = locb, hi = 0x9F\<rparr>"
      by (simp add: s4_def acceptRanges_def)
    have sz: "unat (s4 AND 7) = 3" and nas: "\<not> as \<le> s4"
      by (simp_all add: s4_def as_def)
    from assms(6) [OF 2] assms(3) have ok1: "\<not> (b1 < locb \<or> 0x9F < b1)"
      by (simp add: locb_def word_less_nat_alt)
    show ?thesis
      using ok1 ok2 by (simp add: DecodeRune_def Let_def f acc sz nas c x y z)
  next
    case 3
    with assms(1,2) have f: "first b0 = s3" by (simp add: first_nat)
    have acc: "acceptRanges (drop_bit 4 s3) = \<lparr>lo = locb, hi = hicb\<rparr>"
      by (simp add: s3_def acceptRanges_def)
    have sz: "unat (s3 AND 7) = 3" and nas: "\<not> as \<le> s3"
      by (simp_all add: s3_def as_def)
    from cont_ok [OF assms(3,4)] have ok1: "\<not> (b1 < locb \<or> hicb < b1)" .
    show ?thesis
      using ok1 ok2 by (simp add: DecodeRune_def Let_def f acc sz nas c x y z)
  qed
qed


lemma DecodeRune_4:
  assumes "0xF0 \<le> unat b0" and "unat b0 \<le> 0xF4"
    and "0x80 \<le> unat b1" and "unat b1 \<le> 0xBF"
    and "unat b0 = 0xF0 \<Longrightarrow> 0x90 \<le> unat b1"
    and "unat b0 = 0xF4 \<Longrightarrow> unat b1 \<le> 0x8F"
    and "0x80 \<le> unat b2" and "unat b2 \<le> 0xBF"
    and "0x80 \<le> unat b3" and "unat b3 \<le> 0xBF"
  shows "DecodeRune (b0 # b1 # b2 # b3 # rest)
         = (of_nat ((unat b0 - 0xF0) * 262144 + (unat b1 - 0x80) * 4096
                    + (unat b2 - 0x80) * 64 + (unat b3 - 0x80)), 4)"
proof -
  have x: "unat (b0 AND mask4) = unat b0 - 0xF0"
    using assms(1,2) mod8_F [of "unat b0"] by (simp add: unat_and_mask4)
  have y: "unat (b1 AND maskx) = unat b1 - 0x80"
    using assms(3,4) mod64_cont [of "unat b1"] by (simp add: unat_and_maskx)
  have z: "unat (b2 AND maskx) = unat b2 - 0x80"
    using assms(7,8) mod64_cont [of "unat b2"] by (simp add: unat_and_maskx)
  have w: "unat (b3 AND maskx) = unat b3 - 0x80"
    using assms(9,10) mod64_cont [of "unat b3"] by (simp add: unat_and_maskx)
  have "unat (b0 AND mask4) < 8" and "unat (b1 AND maskx) < 64" and "unat (b2 AND maskx) < 64"
    and "unat (b3 AND maskx) < 64"
    by (simp_all add: unat_and_mask4 unat_and_maskx)
  then have c: "push_bit 18 (rune_of (b0 AND mask4)) OR push_bit 12 (rune_of (b1 AND maskx))
                  OR push_bit 6 (rune_of (b2 AND maskx)) OR rune_of (b3 AND maskx)
           = of_nat (unat (b0 AND mask4) * 262144 + unat (b1 AND maskx) * 4096
                     + unat (b2 AND maskx) * 64 + unat (b3 AND maskx))"
    by (rule compose4)
  from cont_ok [OF assms(7,8)] have ok2: "\<not> (b2 < locb \<or> hicb < b2)" .
  from cont_ok [OF assms(9,10)] have ok3: "\<not> (b3 < locb \<or> hicb < b3)" .
  consider "unat b0 = 0xF0" | "unat b0 = 0xF4" | "unat b0 \<noteq> 0xF0" "unat b0 \<noteq> 0xF4"
    by blast
  then show ?thesis
  proof cases
    case 1
    then have f: "first b0 = s5" by (simp add: first_nat)
    have acc: "acceptRanges (drop_bit 4 s5) = \<lparr>lo = 0x90, hi = hicb\<rparr>"
      by (simp add: s5_def acceptRanges_def)
    have sz: "unat (s5 AND 7) = 4" and nas: "\<not> as \<le> s5"
      by (simp_all add: s5_def as_def)
    from assms(5) [OF 1] assms(4) have ok1: "\<not> (b1 < 0x90 \<or> hicb < b1)"
      by (simp add: hicb_def word_less_nat_alt)
    show ?thesis
      using ok1 ok2 ok3 by (simp add: DecodeRune_def Let_def f acc sz nas c x y z w)
  next
    case 2
    then have f: "first b0 = s7" by (simp add: first_nat)
    have acc: "acceptRanges (drop_bit 4 s7) = \<lparr>lo = locb, hi = 0x8F\<rparr>"
      by (simp add: s7_def acceptRanges_def)
    have sz: "unat (s7 AND 7) = 4" and nas: "\<not> as \<le> s7"
      by (simp_all add: s7_def as_def)
    from assms(6) [OF 2] assms(3) have ok1: "\<not> (b1 < locb \<or> 0x8F < b1)"
      by (simp add: locb_def word_less_nat_alt)
    show ?thesis
      using ok1 ok2 ok3 by (simp add: DecodeRune_def Let_def f acc sz nas c x y z w)
  next
    case 3
    with assms(1,2) have f: "first b0 = s6" by (simp add: first_nat)
    have acc: "acceptRanges (drop_bit 4 s6) = \<lparr>lo = locb, hi = hicb\<rparr>"
      by (simp add: s6_def acceptRanges_def)
    have sz: "unat (s6 AND 7) = 4" and nas: "\<not> as \<le> s6"
      by (simp_all add: s6_def as_def)
    from cont_ok [OF assms(3,4)] have ok1: "\<not> (b1 < locb \<or> hicb < b1)" .
    show ?thesis
      using ok1 ok2 ok3 by (simp add: DecodeRune_def Let_def f acc sz nas c x y z w)
  qed
qed


lemma unat_byte_of_nat: "n < 256 \<Longrightarrow> unat (of_nat n :: byte) = n"
  by (simp add: unat_of_nat)

lemma div_lb: "l * m \<le> c \<Longrightarrow> 0 < m \<Longrightarrow> l \<le> c div (m::nat)"
  by (simp add: less_eq_div_iff_mult_less_eq)

lemma div_ub: "c < h * m \<Longrightarrow> c div m < (h::nat)"
  by (rule less_mult_imp_div_less)

lemma decode_encode_2:
  assumes "0x80 \<le> c" and "c < 0x800"
  shows "DecodeRune (of_nat (0xC0 + c div 0x40) # of_nat (0x80 + c mod 0x40) # rest)
         = (of_nat c, 2)"
proof -
  define q where "q = c div 0x40"
  define r where "r = c mod 0x40"
  define n0 where "n0 = 0xC0 + q"
  define n1 where "n1 = 0x80 + r"
  have c: "c = q * 64 + r"
    by (simp add: q_def r_def)
  have q: "2 \<le> q" "q < 32"
    using assms div_lb [of 2 64 c] div_ub [of c 32 64] by (simp_all add: q_def)
  have r: "r < 64" by (simp add: r_def)
  have u0: "unat (of_nat n0 :: byte) = n0"
    by (rule unat_byte_of_nat) (use q in \<open>simp add: n0_def\<close>)
  have u1: "unat (of_nat n1 :: byte) = n1"
    by (rule unat_byte_of_nat) (use r in \<open>simp add: n1_def\<close>)
  have "DecodeRune (of_nat n0 # of_nat n1 # rest)
        = (of_nat ((unat (of_nat n0 :: byte) - 0xC0) * 64 + (unat (of_nat n1 :: byte) - 0x80)), 2)"
    by (rule DecodeRune_2) (use q r in \<open>simp_all only: u0 u1, simp_all add: n0_def n1_def\<close>)
  also have "(unat (of_nat n0 :: byte) - 0xC0) * 64 + (unat (of_nat n1 :: byte) - 0x80) = c"
    by (simp only: u0 u1) (simp add: n0_def n1_def c)
  finally show ?thesis
    by (simp only: n0_def n1_def q_def r_def)
qed


lemma split3:
  "(c::nat) = (c div 0x1000) * 4096 + (c div 0x40 mod 0x40) * 64 + c mod 0x40"
proof -
  have "c div 0x1000 = c div 0x40 div 0x40"
    using div_mult2_eq [of c 64 64] by simp
  moreover have "c div 0x40 = (c div 0x40 div 0x40) * 64 + c div 0x40 mod 0x40"
    by simp
  moreover have "c = (c div 0x40) * 64 + c mod 0x40"
    by simp
  ultimately show ?thesis by linarith
qed

lemma split4:
  "(c::nat) = (c div 0x40000) * 262144 + (c div 0x1000 mod 0x40) * 4096
              + (c div 0x40 mod 0x40) * 64 + c mod 0x40"
proof -
  have "c div 0x40000 = c div 0x1000 div 0x40"
    using div_mult2_eq [of c 4096 64] by simp
  moreover have "c div 0x1000 = (c div 0x1000 div 0x40) * 64 + c div 0x1000 mod 0x40"
    by simp
  ultimately have "(c div 0x1000) * 4096
                   = (c div 0x40000) * 262144 + (c div 0x1000 mod 0x40) * 4096"
    by linarith
  with split3 [of c] show ?thesis by linarith
qed

lemma decode_encode_3:
  assumes "0x800 \<le> c" and "c < 0x10000" and "c < 0xD800 \<or> 0xDFFF < c"
  shows "DecodeRune (of_nat (0xE0 + c div 0x1000) # of_nat (0x80 + c div 0x40 mod 0x40)
                       # of_nat (0x80 + c mod 0x40) # rest)
         = (of_nat c, 3)"
proof -
  define q0 where "q0 = c div 0x1000"
  define q1 where "q1 = c div 0x40 mod 0x40"
  define r where "r = c mod 0x40"
  define n0 where "n0 = 0xE0 + q0"
  define n1 where "n1 = 0x80 + q1"
  define n2 where "n2 = 0x80 + r"
  have c: "c = q0 * 4096 + q1 * 64 + r"
    unfolding q0_def q1_def r_def by (rule split3)
  have q0: "q0 < 16"
    using assms div_ub [of c 16 4096] by (simp add: q0_def)
  have q1: "q1 < 64" and r: "r < 64" by (simp_all add: q1_def r_def)
  have lo: "32 \<le> q1" if "q0 = 0"
    using that assms(1) c r by linarith
  have hi: "q1 \<le> 31" if "q0 = 13"
    using that assms(3) c q1 r by linarith
  have u0: "unat (of_nat n0 :: byte) = n0"
    by (rule unat_byte_of_nat) (use q0 in \<open>simp add: n0_def\<close>)
  have u1: "unat (of_nat n1 :: byte) = n1"
    by (rule unat_byte_of_nat) (use q1 in \<open>simp add: n1_def\<close>)
  have u2: "unat (of_nat n2 :: byte) = n2"
    by (rule unat_byte_of_nat) (use r in \<open>simp add: n2_def\<close>)
  have "DecodeRune (of_nat n0 # of_nat n1 # of_nat n2 # rest)
        = (of_nat ((unat (of_nat n0 :: byte) - 0xE0) * 4096
                   + (unat (of_nat n1 :: byte) - 0x80) * 64
                   + (unat (of_nat n2 :: byte) - 0x80)), 3)"
    by (rule DecodeRune_3)
      (use q0 q1 r lo hi in \<open>simp_all only: u0 u1 u2, simp_all add: n0_def n1_def n2_def\<close>)
  also have "(unat (of_nat n0 :: byte) - 0xE0) * 4096 + (unat (of_nat n1 :: byte) - 0x80) * 64
             + (unat (of_nat n2 :: byte) - 0x80) = c"
    by (simp only: u0 u1 u2) (simp add: n0_def n1_def n2_def c)
  finally show ?thesis
    by (simp only: n0_def n1_def n2_def q0_def q1_def r_def)
qed

lemma decode_encode_4:
  assumes "0x10000 \<le> c" and "c \<le> 0x10FFFF"
  shows "DecodeRune (of_nat (0xF0 + c div 0x40000) # of_nat (0x80 + c div 0x1000 mod 0x40)
                       # of_nat (0x80 + c div 0x40 mod 0x40) # of_nat (0x80 + c mod 0x40) # rest)
         = (of_nat c, 4)"
proof -
  define q0 where "q0 = c div 0x40000"
  define q1 where "q1 = c div 0x1000 mod 0x40"
  define q2 where "q2 = c div 0x40 mod 0x40"
  define r where "r = c mod 0x40"
  define n0 where "n0 = 0xF0 + q0"
  define n1 where "n1 = 0x80 + q1"
  define n2 where "n2 = 0x80 + q2"
  define n3 where "n3 = 0x80 + r"
  have c: "c = q0 * 262144 + q1 * 4096 + q2 * 64 + r"
    unfolding q0_def q1_def q2_def r_def by (rule split4)
  have q0: "q0 \<le> 4"
    using assms div_ub [of c 5 262144] by (simp add: q0_def)
  have q1: "q1 < 64" and q2: "q2 < 64" and r: "r < 64"
    by (simp_all add: q1_def q2_def r_def)
  have lo: "16 \<le> q1" if "q0 = 0"
    using that assms(1) c q2 r by linarith
  have hi: "q1 \<le> 15" if "q0 = 4"
    using that assms(2) c by linarith
  have u0: "unat (of_nat n0 :: byte) = n0"
    by (rule unat_byte_of_nat) (use q0 in \<open>simp add: n0_def\<close>)
  have u1: "unat (of_nat n1 :: byte) = n1"
    by (rule unat_byte_of_nat) (use q1 in \<open>simp add: n1_def\<close>)
  have u2: "unat (of_nat n2 :: byte) = n2"
    by (rule unat_byte_of_nat) (use q2 in \<open>simp add: n2_def\<close>)
  have u3: "unat (of_nat n3 :: byte) = n3"
    by (rule unat_byte_of_nat) (use r in \<open>simp add: n3_def\<close>)
  have "DecodeRune (of_nat n0 # of_nat n1 # of_nat n2 # of_nat n3 # rest)
        = (of_nat ((unat (of_nat n0 :: byte) - 0xF0) * 262144
                   + (unat (of_nat n1 :: byte) - 0x80) * 4096
                   + (unat (of_nat n2 :: byte) - 0x80) * 64
                   + (unat (of_nat n3 :: byte) - 0x80)), 4)"
    by (rule DecodeRune_4)
      (use q0 q1 q2 r lo hi in
        \<open>simp_all only: u0 u1 u2 u3, simp_all add: n0_def n1_def n2_def n3_def\<close>)
  also have "(unat (of_nat n0 :: byte) - 0xF0) * 262144 + (unat (of_nat n1 :: byte) - 0x80) * 4096
             + (unat (of_nat n2 :: byte) - 0x80) * 64 + (unat (of_nat n3 :: byte) - 0x80) = c"
    by (simp only: u0 u1 u2 u3) (simp add: n0_def n1_def n2_def n3_def c)
  finally show ?thesis
    by (simp only: n0_def n1_def n2_def n3_def q0_def q1_def q2_def r_def)
qed


lemma decode_encode_1:
  assumes "c < 0x80"
  shows "DecodeRune (of_nat c # rest) = (of_nat c, 1)"
proof -
  have u: "unat (of_nat c :: byte) = c"
    by (rule unat_byte_of_nat) (use assms in simp)
  have "unat (rune_of (of_nat c :: byte)) = unat (of_nat c :: rune)"
    using assms unat_of_nat_rune [of c] by (simp add: unat_rune_of u)
  then have r: "rune_of (of_nat c :: byte) = of_nat c"
    by (simp only: word_unat_eq_iff)
  have "DecodeRune (of_nat c # rest) = (rune_of (of_nat c :: byte), 1)"
  proof (rule DecodeRune_1)
    show "unat (of_nat c :: byte) \<le> 0x7F"
      using assms by (simp add: u)
  qed
  with r show ?thesis by simp
qed

lemma DecodeRune_utf8_encoding:
  assumes "scalar_value c"
  shows "DecodeRune (bytes_of (utf8_encoding c) @ rest) = (of_nat c, length (utf8_encoding c))"
proof -
  consider "c < 0x80" | "0x80 \<le> c" "c < 0x800" | "0x800 \<le> c" "c < 0x10000"
    | "0x10000 \<le> c"
    by linarith
  then show ?thesis
  proof cases
    case 1
    then show ?thesis
      using decode_encode_1 [of c rest] by (simp add: utf8_encoding_def bytes_of_def)
  next
    case 2
    then show ?thesis
      using decode_encode_2 [of c rest] by (simp add: utf8_encoding_def bytes_of_def)
  next
    case 3
    with assms have "c < 0xD800 \<or> 0xDFFF < c" by (auto simp: scalar_value_def)
    with 3 show ?thesis
      using decode_encode_3 [of c rest] by (simp add: utf8_encoding_def bytes_of_def)
  next
    case 4
    with assms have "c \<le> 0x10FFFF" by (auto simp: scalar_value_def)
    with 4 show ?thesis
      using decode_encode_4 [of c rest] by (simp add: utf8_encoding_def bytes_of_def)
  qed
qed


lemma utf8_encoding_nonempty: "utf8_encoding c \<noteq> []"
  by (simp add: utf8_encoding_def)

lemma rune_of_nat_neq_RuneError:
  assumes "scalar_value c" and "c \<noteq> 0xFFFD"
  shows "(of_nat c :: rune) \<noteq> RuneError"
proof
  assume "(of_nat c :: rune) = RuneError"
  then have "unat (of_nat c :: rune) = unat RuneError" by simp
  moreover have "unat (of_nat c :: rune) = c"
    by (rule unat_of_nat_rune) (use assms(1) in \<open>auto simp: scalar_value_def\<close>)
  ultimately show False
    using assms(2) by (simp add: RuneError_def)
qed

text \<open>
  Every scalar value but U+FFFD is decoded: on a buffer that starts with the complete
  encoding of such a scalar, and whose first byte is not 0x1B, is above \<open>KeySpace\<close> and
  is not \<open>KeyBackspace2\<close>, \<open>extract_event\<close> consumes the bytes of that encoding and
  returns the event of that scalar.
\<close>

theorem extract_event_valid_scalar:
  assumes "scalar_value c" and "c \<noteq> 0xFFFD"
    and "buf = bytes_of (utf8_encoding c) @ rest"
    and "buf ! 0 \<noteq> 0x1B"
    and "\<not> Key_of_byte (buf ! 0) \<le> KeySpace K"
    and "Key_of_byte (buf ! 0) \<noteq> KeyBackspace2 K"
  shows "extract_event K keys buf = (length (utf8_encoding c), rune_event (of_nat c))"
proof -
  from assms(3) have ne: "length buf \<noteq> 0"
    by (simp add: bytes_of_def utf8_encoding_nonempty)
  from assms(1,3) have d: "DecodeRune buf = (of_nat c, length (utf8_encoding c))"
    by (simp add: DecodeRune_utf8_encoding)
  from assms(1,2) have r: "(of_nat c :: rune) \<noteq> RuneError"
    by (rule rune_of_nat_neq_RuneError)
  show ?thesis
    using ne assms(4,5,6) d r
    by (simp add: extract_event_def rune_event_def keyEvent_zero_def)
qed

theorem extract_event_valid_scalar_witness:
  "scalar_value 0x4E2D
   \<and> bytes_of (utf8_encoding 0x4E2D) @ [0x61] = [0xE4, 0xB8, 0xAD, 0x61]
   \<and> extract_event std_keydefs f1f2_keys [0xE4, 0xB8, 0xAD, 0x61] = (3, rune_event 0x4E2D)"
  using extract_event_valid_scalar [of "0x4E2D" "[0xE4, 0xB8, 0xAD, 0x61]" "[0x61]" std_keydefs f1f2_keys]
  by (simp add: scalar_value_def utf8_encoding_def bytes_of_def std_keydefs_def Key_of_byte_def)


section \<open>The decoder on a scalar\<close>

text \<open>
  Claim C4, at the input where the code departs from it. The bytes EF BF BD are the
  complete, valid encoding of the scalar U+FFFD: \<open>DecodeRune\<close> returns that scalar with
  width 3. Its value is the one of \<open>utf8.RuneError\<close>, so the test \<open>r != utf8.RuneError\<close>
  of \<open>extract_event\<close> takes it for a failed decoding: the result is consumed = 0 and no
  event, where the claim has consumed = 3 and the scalar.
\<close>

theorem extract_event_U_FFFD:
  "DecodeRune [0xEF, 0xBF, 0xBD] = (0xFFFD, 3)
   \<and> extract_event std_keydefs keys [0xEF, 0xBF, 0xBD] = (0, keyEvent_zero)"
  by (simp add: extract_event_def Key_of_byte_def std_keydefs_def utf8_defs)

section \<open>The producer on one chunk\<close>

text \<open>
  Claim C2, at the input where the code departs from it. With the table of F1 and F2 and
  an empty buffer, the single chunk 0x1B \<open>O\<close> \<open>P\<close> \<open>a\<close> makes the producer call
  \<open>extract_event\<close> once: it sends F1 and keeps the byte \<open>a\<close> in \<open>inbuf\<close>, where the
  claim has the two events F1 and \<open>a\<close>. The scalar \<open>a\<close> is sent only when another
  chunk arrives, here an empty one.
\<close>

theorem producer_one_event_per_chunk:
  "inputEventsProducer std_keydefs f1f2_keys [] [chunk [0x1B, 0x4F, 0x50, 0x61]]
     = Some ([0x61], [key_event 0xFFFF])
   \<and> inputEventsProducer std_keydefs f1f2_keys [] [chunk [0x1B, 0x4F, 0x50, 0x61], chunk []]
     = Some ([], [key_event 0xFFFF, rune_event 0x61])"
  by (simp add: producer_defs decoder_defs scenario_defs utf8_defs)

section \<open>The two tasks: steps\<close>

lemma on_input_event_continue:
  "on_input_event K keys buf ev = Some (b, out, c) \<Longrightarrow> c = (ioerr ev = None)"
  by (auto simp: on_input_event_def split: option.splits)

lemma step_fired:
  "step K keys a s = Some s' \<Longrightarrow> fired (main s) \<Longrightarrow> fired (main s')"
  by (auto simp: step_def fired_def
      split: action.splits reader_pc.splits producer_pc.splits main_pc.splits
        option.splits if_splits prod.splits)

lemma step_reader_alive:
  "step K keys a s = Some s' \<Longrightarrow> fired (main s) \<Longrightarrow> reader s \<noteq> R_Stopped \<Longrightarrow>
     reader s' \<noteq> R_Stopped"
  by (auto simp: step_def fired_def after_read_def
      split: action.splits reader_pc.splits producer_pc.splits main_pc.splits
        option.splits if_splits prod.splits read_result.splits)

lemma step_producer_stuck:
  assumes "step K keys a s = Some s'" and "fired (main s)" and "reader s = R_Stopped"
    and "producer_looping (producer s)"
  shows "reader s' = R_Stopped \<and> producer_looping (producer s')"
proof -
  from extract_and_produce_no_panic [of K keys "inbuf s"] assms show ?thesis
    by (auto simp: step_def fired_def producer_looping_def after_produce_def
      split: action.splits producer_pc.splits main_pc.splits option.splits if_splits)
qed


section \<open>The two tasks after the teardown has sent on \<open>quit\<close>\<close>

lemma run_invariant:
  assumes inv: "\<And>a s s'. step K keys a s = Some s' \<Longrightarrow> P s \<Longrightarrow> P s'"
  shows "run K keys acts s = Some s' \<Longrightarrow> P s \<Longrightarrow> P s'"
proof (induction acts arbitrary: s)
  case Nil
  then show ?case by simp
next
  case (Cons a acts)
  from Cons.prems(1) obtain u where u: "step K keys a s = Some u"
    and rest: "run K keys acts u = Some s'"
    by (auto split: option.splits)
  from inv [OF u Cons.prems(2)] have "P u" .
  with Cons.IH [OF rest] show ?case .
qed

lemma reader_never_stops:
  assumes "run K keys acts s = Some s'" and "fired (main s)" and "reader s \<noteq> R_Stopped"
  shows "reader s' \<noteq> R_Stopped"
proof -
  have "fired (main s') \<and> reader s' \<noteq> R_Stopped"
    using assms(1)
  proof (rule run_invariant [where P = "\<lambda>s. fired (main s) \<and> reader s \<noteq> R_Stopped", rotated])
    show "fired (main s) \<and> reader s \<noteq> R_Stopped" using assms by simp
  next
    fix a t t'
    assume "step K keys a t = Some t'" and "fired (main t) \<and> reader t \<noteq> R_Stopped"
    then show "fired (main t') \<and> reader t' \<noteq> R_Stopped"
      by (simp add: step_fired step_reader_alive)
  qed
  then show ?thesis by simp
qed

lemma producer_never_stops:
  assumes "run K keys acts s = Some s'" and "fired (main s)" and "reader s = R_Stopped"
    and "producer_looping (producer s)"
  shows "producer_looping (producer s')"
proof -
  let ?P = "\<lambda>s. fired (main s) \<and> reader s = R_Stopped \<and> producer_looping (producer s)"
  have "?P s'"
    using assms(1)
  proof (rule run_invariant [where P = ?P, rotated])
    show "?P s" using assms by simp
  next
    fix a t t'
    assume "step K keys a t = Some t'" and "?P t"
    then show "?P t'"
      using step_fired [of K keys a t t'] step_producer_stuck [of K keys a t t'] by simp
  qed
  then show ?thesis by simp
qed

lemma quit_taken:
  assumes "step K keys a s = Some u" and "main s = M_Quit" and "main u \<noteq> M_Quit"
  shows "main u = M_Restore
         \<and> ((reader u = R_Stopped \<and> producer u = producer s \<and> reader s \<noteq> R_Stopped)
            \<or> (reader u = reader s \<and> producer s = P_Select \<and> producer u = P_Stopped)
            \<or> (reader u = reader s
               \<and> (\<exists>e c. producer s = P_Produce e c \<and> producer u = after_produce c)))"
  using assms
  by (auto simp: step_def
      split: action.splits reader_pc.splits producer_pc.splits main_pc.splits
        option.splits if_splits prod.splits)

text \<open>
  Claim C3, where the code departs from it. \<open>releaseConsole\<close> sends one value on the
  unbuffered channel \<open>quit\<close>, and one receive takes it. Let both tasks be running, the
  producer not on its way out after a read error, and the caller at \<open>quit <- 1\<close>.
  Whichever \<open>select\<close> receives the value (the reader's outer or inner one, the one of the
  producer's loop, or the one of \<open>produceEvent\<close>, which only returns to the loop), in no
  state that any sequence of actions reaches afterwards are both tasks stopped: the claim
  has both reach Stopped.
\<close>

theorem quit_stops_one_task_only:
  assumes "main s = M_Quit" and "reader s \<noteq> R_Stopped" and "producer_looping (producer s)"
    and "step K keys a s = Some u" and "main u \<noteq> M_Quit"
    and "run K keys acts u = Some s'"
  shows "\<not> (reader s' = R_Stopped \<and> producer s' = P_Stopped)"
proof -
  from quit_taken [OF assms(4) assms(1) assms(5)]
  have m: "fired (main u)"
    and c: "(reader u = R_Stopped \<and> producer u = producer s)
            \<or> (reader u = reader s \<and> producer s = P_Select \<and> producer u = P_Stopped)
            \<or> (reader u = reader s
               \<and> (\<exists>e c. producer s = P_Produce e c \<and> producer u = after_produce c))"
    by (auto simp: fired_def)
  from c show ?thesis
  proof (elim disjE)
    assume "reader u = R_Stopped \<and> producer u = producer s"
    with assms(3,6) m have "producer_looping (producer s')"
      using producer_never_stops [of K keys acts u s'] by simp
    then show ?thesis by (auto simp: producer_looping_def)
  next
    assume "reader u = reader s \<and> producer s = P_Select \<and> producer u = P_Stopped"
    with assms(2,6) m have "reader s' \<noteq> R_Stopped"
      using reader_never_stops [of K keys acts u s'] by simp
    then show ?thesis by simp
  next
    assume "reader u = reader s
      \<and> (\<exists>e c. producer s = P_Produce e c \<and> producer u = after_produce c)"
    with assms(2,6) m have "reader s' \<noteq> R_Stopped"
      using reader_never_stops [of K keys acts u s'] by simp
    then show ?thesis by simp
  qed
qed

theorem quit_stops_one_task_only_witness:
  "run std_keydefs f1f2_keys [Producer_start, Call_releaseConsole] console_open
     = Some (console_open\<lparr>producer := P_Select, main := M_Quit\<rparr>)
   \<and> step std_keydefs f1f2_keys Reader_recv_quit (console_open\<lparr>producer := P_Select, main := M_Quit\<rparr>)
     = Some (console_open\<lparr>reader := R_Stopped, producer := P_Select, main := M_Restore\<rparr>)
   \<and> run std_keydefs f1f2_keys [Main_next, Main_next, Main_next, Signal_SIGIO]
       (console_open\<lparr>reader := R_Stopped, producer := P_Select, main := M_Restore\<rparr>)
     = Some (console_open\<lparr>reader := R_Stopped, producer := P_Select, main := M_Done, sigio := True\<rparr>)
   \<and> \<not> (reader (console_open\<lparr>reader := R_Stopped, producer := P_Select, main := M_Done, sigio := True\<rparr>) = R_Stopped
        \<and> producer (console_open\<lparr>reader := R_Stopped, producer := P_Select, main := M_Done, sigio := True\<rparr>) = P_Stopped)"
  using quit_stops_one_task_only [of "console_open\<lparr>producer := P_Select, main := M_Quit\<rparr>"
      std_keydefs f1f2_keys Reader_recv_quit
      "console_open\<lparr>reader := R_Stopped, producer := P_Select, main := M_Restore\<rparr>"
      "[Main_next, Main_next, Main_next, Signal_SIGIO]"
      "console_open\<lparr>reader := R_Stopped, producer := P_Select, main := M_Done, sigio := True\<rparr>"]
  by (simp add: system_defs producer_looping_def extract_and_produce_def extract_event_def)


section \<open>The reader after a read error\<close>





section \<open>A failing \<open>initConsole\<close>\<close>

text \<open>
  Claim C8, as amended. When a step of \<open>initConsole\<close> fails, the function returns the
  error, starts neither goroutine and leaves the attributes of the terminal as they were;
  but it closes nothing: a descriptor opened before the failing step is still open when
  the function returns, and the registration of \<open>sigio\<close> and the flags of \<open>in\<close> set
  before the failing step stay.

  The counterexample to the claim as written: when \<open>syscall.Open\<close> fails, the
  descriptor \<open>out\<close> that \<open>os.OpenFile\<close> has opened is open on return.
\<close>

theorem initConsole_failure_closes_nothing:
  assumes "some_step_fails sys"
  shows "\<exists>c e. initConsole sys (console_closed t) = (c, Some e)
           \<and> out_open c = (OpenFile_errno sys = None)
           \<and> in_open c = (OpenFile_errno sys = None \<and> Open_errno sys = None)
           \<and> sigio_notified c
               = (OpenFile_errno sys = None \<and> Open_errno sys = None \<and> setup_term_err sys = None)
           \<and> in_async c
               = (OpenFile_errno sys = None \<and> Open_errno sys = None \<and> setup_term_err sys = None
                  \<and> F_SETFL_errno sys = None)
           \<and> tty c = t \<and> \<not> reader_started c \<and> \<not> producer_started c"
  using assms
  by (auto simp: some_step_fails_def initConsole_defs split: option.splits)

theorem initConsole_failure_closes_nothing_witness:
  "some_step_fails (all_succeed\<lparr>SETATTR_errno := Some 25\<rparr>)
   \<and> initConsole (all_succeed\<lparr>SETATTR_errno := Some 25\<rparr>) (console_closed zero_termios)
       = ((console_closed zero_termios)
            \<lparr>out_open := True, in_open := True, term_ready := True, sigio_notified := True,
             in_async := True, in_owner := True\<rparr>,
          Some (SyscallError ''SYS_IOCTL'' (Errno 25)))"
  using initConsole_failure_closes_nothing [of "all_succeed\<lparr>SETATTR_errno := Some 25\<rparr>" zero_termios]
  by (simp add: some_step_fails_def all_succeed_def initConsole_defs)

theorem initConsole_descriptor_left_open_counterexample:
  "initConsole (all_succeed\<lparr>Open_errno := Some 24\<rparr>) (console_closed zero_termios)
     = ((console_closed zero_termios)\<lparr>out_open := True\<rparr>, Some (Errno 24))
   \<and> out_open (fst (initConsole (all_succeed\<lparr>Open_errno := Some 24\<rparr>) (console_closed zero_termios)))"
  by (simp add: all_succeed_def initConsole_defs)


end
